theory Spec2Isabelle
  imports Main "HOL-Library.Signed_Division" "HOL-Library.Word"
begin

unbundle bit_operations_syntax

section \<open>Host semantics\<close>

text \<open>
  A BigInt is an unbounded integer, modelled as \<open>int\<close>.  The BigInt operators \<open>/\<close> and
  \<open>%\<close> truncate towards zero; they are \<open>sdiv\<close> and \<open>smod\<close> on \<open>int\<close>.  They raise a
  RangeError on a zero divisor; every division below is noted with the reason why its
  divisor is not zero where it is reached.  A thrown \<open>Error\<close> is the left summand of the
  result, with its message.
\<close>

datatype js_error = Error string

section \<open>BigMath\<close>

definition abs_bigint :: "int \<Rightarrow> int" where
  "abs_bigint num = (if num < 0 then num * (- 1) else num)"

record egcd_result =
  res_g :: int
  res_x :: int
  res_y :: int

text \<open>The divisor \<open>a\<close> of \<open>b % a\<close> and \<open>b / a\<close> is not zero in the second branch.\<close>

function eGcd :: "int \<Rightarrow> int \<Rightarrow> egcd_result" where
  "eGcd a b =
     (if a = 0 then \<lparr>res_g = b, res_x = 0, res_y = 1\<rparr>
      else (let r = eGcd (b smod a) a
            in \<lparr>res_g = res_g r, res_x = res_y r - (b sdiv a) * res_x r, res_y = res_x r\<rparr>))"
  by pat_completeness auto
termination
proof (relation "measure (\<lambda>(a, b). nat \<bar>a\<bar>)")
  show "wf (measure (\<lambda>(a, b). nat \<bar>a\<bar>))" by simp
next
  fix a b :: int
  assume "a \<noteq> 0"
  then have "\<bar>b smod a\<bar> < \<bar>a\<bar>"
    by (simp add: signed_modulo_int_def abs_mult abs_sgn_eq)
  then show "((b smod a, a), (a, b)) \<in> measure (\<lambda>(a, b). nat \<bar>a\<bar>)"
    by simp
qed

declare eGcd.simps [simp del]

definition toZn :: "int \<Rightarrow> int \<Rightarrow> js_error + int" where
  "toZn a m =
     (if m \<le> 0 then Inl (Error ''m must be > 0'')
      else (let aZm = a smod m in Inr (if aZm < 0 then aZm + m else aZm)))"

definition modInv :: "int \<Rightarrow> int \<Rightarrow> js_error + int" where
  "modInv a m =
     (case toZn a m of
        Inl e \<Rightarrow> Inl e
      | Inr z \<Rightarrow>
          (let egcd = eGcd z m
           in if res_g egcd \<noteq> 1 then Inl (Error ''Modular inverse does not exist'')
              else toZn (res_x egcd) m))"

definition isOdd :: "int \<Rightarrow> bool" where
  "isOdd n = (n smod 2 = 1)"

text \<open>
  The \<open>while (exp > 0n)\<close> loop of \<open>modPow\<close>, on the variables \<open>base\<close>, \<open>exp\<close> and \<open>r\<close>;
  \<open>m\<close> is not zero where the loop is entered.
\<close>

function modPow_loop :: "int \<Rightarrow> int \<Rightarrow> int \<Rightarrow> int \<Rightarrow> int" where
  "modPow_loop base exp m r =
     (if exp > 0 then
        (if base = 0 then 0
         else modPow_loop ((base * base) smod m) (exp sdiv 2) m
                (if isOdd exp then (r * base) smod m else r))
      else r)"
  by pat_completeness auto
termination
  by (relation "measure (\<lambda>(base, exp, m, r). nat exp)")
     (auto simp: signed_divide_int_def sgn_if)

declare modPow_loop.simps [simp del]

function modPow :: "int \<Rightarrow> int \<Rightarrow> int \<Rightarrow> js_error + int" where
  "modPow base exp m =
     (if m = 0 then Inl (Error ''Cannot modPow with modulus 0'')
      else if exp = 0 then Inr 1
      else (case toZn base m of
              Inl e \<Rightarrow> Inl e
            | Inr base' \<Rightarrow>
                if exp < 0 then
                  (case modPow base' (abs_bigint exp) m of
                     Inl e \<Rightarrow> Inl e
                   | Inr v \<Rightarrow> modInv v m)
                else Inr (modPow_loop base' exp m 1)))"
  by pat_completeness auto
termination
  by (relation "measure (\<lambda>(base, exp, m). if exp < 0 then 1 else 0)")
     (auto simp: abs_bigint_def)

declare modPow.simps [simp del]

definition negate :: "int \<Rightarrow> int" where
  "negate num = - abs_bigint num"

text \<open>
  The inner \<open>while (n % i === 0n)\<close> loop and the outer \<open>for\<close> loop of \<open>phi\<close>.  The
  source gives neither a bound, so they are partial functions: \<open>None\<close> is a run that
  does not return.  The divisor \<open>i\<close> starts at 2 and only grows.
\<close>

partial_function (option) phi_divide :: "int \<Rightarrow> int \<Rightarrow> int option" where
  "phi_divide n i = (if n smod i = 0 then phi_divide (n sdiv i) i else Some n)"

partial_function (option) phi_loop :: "int \<Rightarrow> int \<Rightarrow> int \<Rightarrow> (int \<times> int) option" where
  "phi_loop n result i =
     (if i * i \<le> n then
        (if n smod i = 0 then
           Option.bind (phi_divide n i) (\<lambda>n'. phi_loop n' (result - result sdiv i) (i + 1))
         else phi_loop n result (i + 1))
      else Some (n, result))"

declare phi_divide.simps [code]
declare phi_loop.simps [code]

definition phi :: "int \<Rightarrow> int option" where
  "phi n =
     Option.bind (phi_loop n n 2)
       (\<lambda>(n', result). Some (if n' > 1 then result - result sdiv n' else result))"

text \<open>Euler's totient as the specification words it: the count of the integers in \<open>[1, n]\<close> coprime to \<open>n\<close>.\<close>

definition totient_count :: "nat \<Rightarrow> nat" where
  "totient_count n = card {k \<in> {1..n}. coprime k n}"

text \<open>
  For the proof: a prime is a number above 1 without a divisor strictly between 1 and
  itself; the totatives of \<open>n\<close> counted from 0; and the last step of \<open>phi\<close> as a
  function of the state the loop leaves.
\<close>

definition is_prime :: "nat \<Rightarrow> bool" where
  "is_prime p = (1 < p \<and> (\<forall>d \<in> {2..<p}. \<not> d dvd p))"

definition totatives_below :: "nat \<Rightarrow> nat set" where
  "totatives_below n = {k. k < n \<and> coprime k n}"

definition phi_finish :: "int \<times> int \<Rightarrow> int option" where
  "phi_finish = (\<lambda>(n', result). Some (if n' > 1 then result - result sdiv n' else result))"

section \<open>Strings of digits\<close>

text \<open>
  \<open>BigInt.prototype.toString(radix)\<close> for a radix from 2 to 36: the digits of the
  magnitude, most significant first, after a minus sign for a negative value.  The
  host raises a RangeError for any other radix; the source calls it with 2 and 16 only,
  and the test \<open>radix < 2\<close> below only makes the recursion total.
\<close>

definition digit_char :: "nat \<Rightarrow> char" where
  "digit_char d = (if d < 10 then char_of (48 + d) else char_of (87 + d))"

function nat_toString :: "nat \<Rightarrow> nat \<Rightarrow> string" where
  "nat_toString radix n =
     (if radix < 2 \<or> n < radix then [digit_char n]
      else nat_toString radix (n div radix) @ [digit_char (n mod radix)])"
  by pat_completeness auto
termination
  by (relation "measure (\<lambda>(radix, n). n)") auto

declare nat_toString.simps [simp del]

definition bigint_toString :: "int \<Rightarrow> nat \<Rightarrow> string" where
  "bigint_toString num radix =
     (if num < 0 then CHR ''-'' # nat_toString radix (nat (- num))
      else nat_toString radix (nat num))"

text \<open>
  The value of a hexadecimal digit, and \<open>parseInt(s, 16)\<close> on a string without white
  space: an optional sign, then the longest prefix of hexadecimal digits; \<open>None\<close> is NaN.
\<close>

definition hex_digit :: "char \<Rightarrow> nat option" where
  "hex_digit c =
     (let k = (of_char c :: nat)
      in if 48 \<le> k \<and> k \<le> 57 then Some (k - 48)
         else if 97 \<le> k \<and> k \<le> 102 then Some (k - 87)
         else if 65 \<le> k \<and> k \<le> 70 then Some (k - 55)
         else None)"

definition hex_value :: "string \<Rightarrow> int" where
  "hex_value ds = foldl (\<lambda>acc c. acc * 16 + int (the (hex_digit c))) 0 ds"

definition parseInt16 :: "string \<Rightarrow> int option" where
  "parseInt16 s =
     (let (neg, body) =
            (case s of
               c # rest \<Rightarrow> if c = CHR ''-'' then (True, rest)
                           else if c = CHR ''+'' then (False, rest) else (False, s)
             | [] \<Rightarrow> (False, s));
          ds = takeWhile (\<lambda>c. hex_digit c \<noteq> None) body
      in if ds = [] then None
         else Some (if neg then - hex_value ds else hex_value ds))"

text \<open>
  \<open>BigInt(s)\<close> on a string that starts with \<open>0x\<close>: the hexadecimal digits that follow,
  a SyntaxError when one of them is no digit.
\<close>

definition BigInt_0x :: "string \<Rightarrow> js_error + int" where
  "BigInt_0x s =
     (let ds = drop 2 s
      in if take 2 s = ''0x'' \<and> list_all (\<lambda>c. hex_digit c \<noteq> None) ds then Inr (hex_value ds)
         else Inl (Error ''SyntaxError''))"

section \<open>Byte arrays\<close>

text \<open>
  A \<open>Uint8Array\<close> is a list of bytes.  Storing a number keeps its low eight bits, and
  stores 0 for NaN.
\<close>

type_synonym u8 = "8 word"

definition toUint8 :: "int option \<Rightarrow> u8" where
  "toUint8 v = (case v of None \<Rightarrow> 0 | Some k \<Rightarrow> word_of_int k)"

definition hexPadZero :: "string \<Rightarrow> string" where
  "hexPadZero hex = (if length hex mod 2 \<noteq> 0 then CHR ''0'' # hex else hex)"

definition bigintToHex :: "int \<Rightarrow> bool \<Rightarrow> string" where
  "bigintToHex num padZero =
     (let hexString = bigint_toString num 16
      in if \<not> padZero then hexString else hexPadZero hexString)"

definition bigintToHexPadZero :: "int \<Rightarrow> string" where
  "bigintToHexPadZero num = bigintToHex num True"

text \<open>
  \<open>hexToUint8\<close>: the array has \<open>hex.length / 2\<close> elements, rounded down, and element \<open>i\<close>
  is \<open>parseInt(hex.slice(2 * i, 2 * i + 2), 16)\<close>.  For a string of odd length the
  source's last store is past the end of the array and is dropped.
\<close>

definition slice :: "string \<Rightarrow> nat \<Rightarrow> nat \<Rightarrow> string" where
  "slice s from to = take (to - from) (drop from s)"

definition hexToUint8 :: "string \<Rightarrow> u8 list" where
  "hexToUint8 hex =
     map (\<lambda>i. toUint8 (parseInt16 (slice hex (2 * i) (2 * i + 2)))) [0..<length hex div 2]"

definition bigintToUint8 :: "int \<Rightarrow> bool \<Rightarrow> js_error + u8 list" where
  "bigintToUint8 num handleNegative =
     (if num < 0 then
        (if handleNegative then
           (let bits = (int (length (bigint_toString num 2)) sdiv 8 + 1) * 8;
                prefix1 = push_bit (nat bits) (1::int)
            in Inr (hexToUint8 (bigintToHexPadZero (num + prefix1))))
         else Inl (Error ''BigInt should larger than 0 to convert to Uint8Array''))
      else Inr (hexToUint8 (bigintToHexPadZero num)))"

text \<open>
  \<open>uint8ToBigint\<close> writes into its argument, so the model returns the array as the call
  leaves it next to the result.  \<open>bytes[0]\<close> of an empty array is \<open>undefined\<close>, and
  \<open>undefined & 0x80\<close> is 0.  The carry loop runs from the last index down.
\<close>

function add_carry :: "u8 list \<Rightarrow> int \<Rightarrow> int \<Rightarrow> u8 list" where
  "add_carry bytes i carry =
     (if i \<ge> 0 \<and> carry > 0 then
        (let v = uint (bytes ! nat i) + carry
         in add_carry (bytes[nat i := word_of_int (v AND 0xff)]) (i - 1) (drop_bit 8 v))
      else bytes)"
  by pat_completeness auto
termination
  by (relation "measure (\<lambda>(bytes, i, carry). nat (i + 1))") auto

declare add_carry.simps [simp del]

definition uint8ToBigint :: "u8 list \<Rightarrow> bool \<Rightarrow> int \<times> u8 list" where
  "uint8ToBigint bytes handleNegative =
     (let isNegative = (handleNegative \<and> (case bytes of [] \<Rightarrow> False | b # _ \<Rightarrow> b AND 0x80 \<noteq> 0));
          bytes' = (if isNegative
                    then add_carry (map (\<lambda>b. NOT b AND 0xff) bytes) (int (length bytes) - 1) 1
                    else bytes);
          result = foldl (\<lambda>result b. push_bit 8 result + uint b) 0 bytes'
      in (if isNegative then - result else result, bytes'))"

text \<open>
  For the statements about the codec: the value of a byte array read as a big-endian
  number, the test of the top bit of its first byte, and the range of the
  two's-complement numbers of \<open>n\<close> bytes.
\<close>

definition be_val :: "u8 list \<Rightarrow> int" where
  "be_val bytes = foldl (\<lambda>acc b. acc * 256 + uint b) 0 bytes"

definition sign_bit_set :: "u8 list \<Rightarrow> bool" where
  "sign_bit_set bytes = (case bytes of [] \<Rightarrow> False | b # _ \<Rightarrow> b AND 0x80 \<noteq> 0)"

definition fits_twos_complement :: "int \<Rightarrow> nat \<Rightarrow> bool" where
  "fits_twos_complement v n = (0 < n \<and> - (2 ^ (8 * n - 1)) \<le> v \<and> v < 2 ^ (8 * n - 1))"

section \<open>Random integers\<close>

text \<open>
  The random-byte source is a parameter: an endless stream of bytes and a position in
  it; \<open>randomBytes(n)\<close> takes the next \<open>n\<close>.  The source bounds the \<open>do ... while\<close> loop
  nowhere, so it is a partial function.  In \<open>1n << BigInt(diffLength) - 1n\<close> the
  subtraction binds tighter than the shift.
\<close>

definition randomBytes :: "(nat \<Rightarrow> u8) \<Rightarrow> nat \<Rightarrow> nat \<Rightarrow> u8 list \<times> nat" where
  "randomBytes src pos bufferSize = (map src [pos..<pos + bufferSize], pos + bufferSize)"

definition padStart2 :: "string \<Rightarrow> string" where
  "padStart2 s = replicate (2 - length s) CHR ''0'' @ s"

partial_function (option) random_loop ::
  "int \<Rightarrow> nat \<Rightarrow> (nat \<Rightarrow> u8) \<Rightarrow> nat \<Rightarrow> (js_error + int) option" where
  "random_loop diff diffLength src pos =
     (let byteSize = (diffLength + 7) div 8;
          (buffer, pos') = randomBytes src pos byteSize;
          hexString = ''0x'' @ concat (map (\<lambda>byte. padStart2 (nat_toString 16 (unat byte))) buffer)
      in case BigInt_0x hexString of
           Inl e \<Rightarrow> Some (Inl e)
         | Inr v \<Rightarrow>
             (let result = v AND push_bit (diffLength - 1) 1
              in if result > diff then random_loop diff diffLength src pos'
                 else Some (Inr result)))"

declare random_loop.simps [code]

definition random :: "int \<Rightarrow> int \<Rightarrow> (nat \<Rightarrow> u8) \<Rightarrow> (js_error + int) option" where
  "random start end' src =
     (if start > end' then Some (Inl (Error ''Start must be less than end''))
      else (let diff = end' - start + 1;
                diffLength = length (bigint_toString diff 2)
            in case random_loop diff diffLength src 0 of
                 None \<Rightarrow> None
               | Some (Inl e) \<Rightarrow> Some (Inl e)
               | Some (Inr result) \<Rightarrow> Some (Inr (start + result))))"

section \<open>Truncating division on non-negative operands\<close>

lemma smod_nonneg: "0 \<le> a \<Longrightarrow> 0 < m \<Longrightarrow> a smod m = a mod (m::int)"
  by (simp add: signed_modulo_int_def sgn_if)

lemma sdiv_nonneg: "0 \<le> a \<Longrightarrow> 0 < m \<Longrightarrow> a sdiv m = a div (m::int)"
  by (simp add: signed_divide_int_def sgn_if)

section \<open>Extended gcd\<close>

lemma eGcd_zero: "eGcd 0 b = \<lparr>res_g = b, res_x = 0, res_y = 1\<rparr>"
  by (simp add: eGcd.simps)

lemma eGcd_step:
  "a \<noteq> 0 \<Longrightarrow> eGcd a b =
     \<lparr>res_g = res_g (eGcd (b smod a) a),
      res_x = res_y (eGcd (b smod a) a) - (b sdiv a) * res_x (eGcd (b smod a) a),
      res_y = res_x (eGcd (b smod a) a)\<rparr>"
  by (subst eGcd.simps) (simp add: Let_def)

lemma eGcd_identity: "a * res_x (eGcd a b) + b * res_y (eGcd a b) = res_g (eGcd a b)"
proof (induction a b rule: eGcd.induct)
  case (1 a b)
  show ?case
  proof (cases "a = 0")
    case True
    then show ?thesis by (simp add: eGcd_zero)
  next
    case False
    let ?r = "eGcd (b smod a) a"
    have ih: "(b smod a) * res_x ?r + a * res_y ?r = res_g ?r"
      using "1.IH" [OF False] .
    have dec: "b = (b sdiv a) * a + b smod a"
      by (simp add: sdiv_mult_smod_eq)
    have "a * (res_y ?r - (b sdiv a) * res_x ?r) + b * res_x ?r
        = a * res_y ?r + (b - (b sdiv a) * a) * res_x ?r"
      by (simp add: algebra_simps)
    also have "b - (b sdiv a) * a = b smod a"
      using dec by simp
    finally show ?thesis
      using ih False by (simp add: eGcd_step algebra_simps)
  qed
qed

lemma eGcd_g_gcd: "0 \<le> a \<Longrightarrow> 0 \<le> b \<Longrightarrow> res_g (eGcd a b) = gcd a b"
proof (induction a b rule: eGcd.induct)
  case (1 a b)
  show ?case
  proof (cases "a = 0")
    case True
    with "1.prems" show ?thesis by (simp add: eGcd_zero)
  next
    case False
    with "1.prems" have pos: "0 < a" by simp
    have m: "b smod a = b mod a"
      using "1.prems" pos by (simp add: smod_nonneg)
    have "res_g (eGcd (b smod a) a) = gcd (b mod a) a"
      using "1.IH" [OF False] pos "1.prems" m by simp
    also have "\<dots> = gcd a b"
      by (metis gcd.commute gcd_red_int)
    finally show ?thesis
      using False by (simp add: eGcd_step)
  qed
qed

section \<open>Modular inverse and power\<close>

lemma toZn_pos:
  assumes "0 < m"
  shows "toZn a m = Inr (a mod m)"
proof (cases "0 \<le> a")
  case True
  have "0 \<le> a mod m" using assms by simp
  with True assms show ?thesis
    by (simp add: toZn_def Let_def smod_nonneg not_less)
next
  case False
  with assms have s: "a smod m = - ((- a) mod m)"
    by (simp add: signed_modulo_int_def sgn_if)
  show ?thesis
  proof (cases "a mod m = 0")
    case True
    then have "a smod m = 0"
      by (simp add: s zmod_zminus1_eq_if)
    with True assms show ?thesis
      by (simp add: toZn_def Let_def)
  next
    case nz: False
    have "a mod m < m" using assms by simp
    moreover have "a smod m = a mod m - m"
      using nz by (simp add: s zmod_zminus1_eq_if)
    ultimately show ?thesis
      using assms by (simp add: toZn_def Let_def)
  qed
qed

lemma toZn_nonpos: "m \<le> 0 \<Longrightarrow> toZn a m = Inl (Error ''m must be > 0'')"
  by (simp add: toZn_def)

lemma modInv_pos:
  assumes "0 < m"
  shows "modInv a m =
     (if gcd (a mod m) m \<noteq> 1 then Inl (Error ''Modular inverse does not exist'')
      else Inr (res_x (eGcd (a mod m) m) mod m))"
proof -
  have "0 \<le> a mod m" using assms by simp
  then have "res_g (eGcd (a mod m) m) = gcd (a mod m) m"
    using assms by (simp add: eGcd_g_gcd)
  then show ?thesis
    using assms by (simp add: modInv_def toZn_pos Let_def)
qed

lemma modInv_inverse:
  assumes "0 < m" and "gcd (a mod m) m = 1"
  shows "(a * (res_x (eGcd (a mod m) m) mod m)) mod m = 1 mod m"
proof -
  let ?r = "eGcd (a mod m) m"
  have "0 \<le> a mod m" using assms by simp
  then have "res_g ?r = 1"
    using assms by (simp add: eGcd_g_gcd)
  then have "(a mod m) * res_x ?r + m * res_y ?r = 1"
    using eGcd_identity [of "a mod m" m] by simp
  then have "((a mod m) * res_x ?r + m * res_y ?r) mod m = 1 mod m"
    by simp
  then have "((a mod m) * res_x ?r) mod m = 1 mod m"
    by simp
  then show ?thesis
    by (simp add: mod_mult_left_eq mod_mult_right_eq)
qed

lemma negate_eq: "negate n = - \<bar>n\<bar>"
  by (simp add: negate_def abs_bigint_def)

lemma modPow_loop_eq:
  "0 < m \<Longrightarrow> 0 \<le> base \<Longrightarrow> 0 \<le> r \<Longrightarrow> r < m \<Longrightarrow> 0 \<le> exp
    \<Longrightarrow> modPow_loop base exp m r = (r * base ^ nat exp) mod m"
proof (induction base exp m r rule: modPow_loop.induct)
  case (1 base exp m r)
  show ?case
  proof (cases "exp > 0")
    case False
    with "1.prems" show ?thesis
      by (simp add: modPow_loop.simps)
  next
    case pos: True
    show ?thesis
    proof (cases "base = 0")
      case True
      have "0 < nat exp" using pos by simp
      with True pos show ?thesis
        by (simp add: modPow_loop.simps zero_power)
    next
      case False
      let ?b = "(base * base) smod m"
      let ?e = "exp sdiv 2"
      let ?r = "if isOdd exp then (r * base) smod m else r"
      have b: "?b = (base * base) mod m"
        using "1.prems" by (simp add: smod_nonneg)
      have e: "?e = exp div 2"
        using "1.prems" by (simp add: sdiv_nonneg)
      have odd: "isOdd exp \<longleftrightarrow> odd exp"
        using "1.prems" by (simp add: isOdd_def smod_nonneg odd_iff_mod_2_eq_one)
      have r: "?r = (if odd exp then (r * base) mod m else r)"
        using "1.prems" by (simp add: odd smod_nonneg)
      have ih: "modPow_loop ?b ?e m ?r = (?r * ?b ^ nat ?e) mod m"
        using "1.IH" [OF pos False] "1.prems" by (simp add: b e r)
      have step: "modPow_loop base exp m r = modPow_loop ?b ?e m ?r"
        using pos False by (subst modPow_loop.simps) simp
      have pw: "(base * base) ^ nat (exp div 2) = base ^ (2 * nat (exp div 2))"
        by (simp add: power_mult power2_eq_square)
      have pm: "(x * (y mod m) ^ n) mod m = (x * y ^ n) mod m" for x y :: int and n :: nat
        by (metis mod_mult_right_eq power_mod)
      have "(?r * ?b ^ nat ?e) mod m = (?r * (base * base) ^ nat (exp div 2)) mod m"
        unfolding b e by (rule pm)
      also have "\<dots> = (r * base ^ nat exp) mod m"
      proof (cases "odd exp")
        case True
        then have "exp = 2 * (exp div 2) + 1"
          by simp
        then have "nat exp = nat (2 * (exp div 2) + 1)"
          by simp
        also have "\<dots> = Suc (2 * nat (exp div 2))"
          using pos by (simp add: nat_add_distrib nat_mult_distrib)
        finally have n: "nat exp = Suc (2 * nat (exp div 2))" .
        show ?thesis
          using True by (simp add: r n mod_mult_left_eq power_mult_distrib mult_2 power_add algebra_simps)
      next
        case False
        then have n: "nat exp = 2 * nat (exp div 2)"
          using pos by auto
        show ?thesis
          using False by (simp add: r n power_mult_distrib mult_2 power_add)
      qed
      finally show ?thesis
        using step ih by simp
    qed
  qed
qed


lemma modPow_pos:
  assumes "0 < m" and "0 < exp"
  shows "modPow base exp m = Inr (base ^ nat exp mod m)"
proof -
  have b: "0 \<le> base mod m" "base mod m < m"
    using assms by simp_all
  have one: "(0::int) \<le> 1" by simp
  have "modPow_loop (base mod m) exp m 1 = (1 * (base mod m) ^ nat exp) mod m"
  proof (cases "m = 1")
    case True
    have "modPow_loop 0 exp 1 1 = 0"
      using assms by (simp add: modPow_loop.simps)
    with True show ?thesis by simp
  next
    case False
    with assms have "1 < m" by simp
    then show ?thesis
      using assms b by (intro modPow_loop_eq) simp_all
  qed
  then have "modPow_loop (base mod m) exp m 1 = base ^ nat exp mod m"
    by (simp add: power_mod)
  then show ?thesis
    using assms by (subst modPow.simps) (simp add: toZn_pos)
qed

lemma modPow_neg_exp:
  assumes "0 < m" and "exp < 0"
  shows "modPow base exp m = modInv (base ^ nat (- exp) mod m) m"
proof -
  have "modPow (base mod m) (abs_bigint exp) m = Inr ((base mod m) ^ nat (- exp) mod m)"
    using assms by (simp add: modPow_pos abs_bigint_def)
  then have "modPow (base mod m) (abs_bigint exp) m = Inr (base ^ nat (- exp) mod m)"
    by (simp add: power_mod)
  then show ?thesis
    using assms by (subst modPow.simps) (simp add: toZn_pos)
qed

text \<open>
  C5.  For all integers \<open>a\<close> and \<open>b\<close>, \<open>eGcd\<close> follows the stated recursion: \<open>eGcd 0 b\<close> is
  \<open>(g = b, x = 0, y = 1)\<close>, and for \<open>a \<noteq> 0\<close> the result is \<open>(g, y' - (b / a) * x', x')\<close> where
  \<open>(g, x', y')\<close> is \<open>eGcd (b % a) a\<close>, with the host's truncating \<open>/\<close> and \<open>%\<close>.  The result
  satisfies the Bezout identity \<open>a * x + b * y = g\<close>.
\<close>

theorem eGcd_bezout:
  "eGcd 0 b = \<lparr>res_g = b, res_x = 0, res_y = 1\<rparr> \<and>
   (a \<noteq> 0 \<longrightarrow>
      eGcd a b =
        \<lparr>res_g = res_g (eGcd (b smod a) a),
         res_x = res_y (eGcd (b smod a) a) - (b sdiv a) * res_x (eGcd (b smod a) a),
         res_y = res_x (eGcd (b smod a) a)\<rparr>) \<and>
   a * res_x (eGcd a b) + b * res_y (eGcd a b) = res_g (eGcd a b)"
  using eGcd_zero [of b] eGcd_step [of a b] eGcd_identity [of a b] by blast

theorem eGcd_bezout_witness:
  "(16::int) \<noteq> 0 \<and> eGcd 16 10 = \<lparr>res_g = 2, res_x = 2, res_y = - 3\<rparr> \<and>
   eGcd (10 smod 16) 16 = \<lparr>res_g = 2, res_x = - 3, res_y = 2\<rparr> \<and>
   16 * res_x (eGcd 16 10) + 10 * res_y (eGcd 16 10) = res_g (eGcd 16 10)"
proof -
  have e: "eGcd 16 10 = \<lparr>res_g = 2, res_x = 2, res_y = - 3\<rparr>"
    by code_simp
  have f: "eGcd (10 smod 16) 16 = \<lparr>res_g = 2, res_x = - 3, res_y = 2\<rparr>"
    by code_simp
  show ?thesis
    using eGcd_bezout [of 10 16] by (simp add: e f)
qed

text \<open>
  C8 as stated fails: \<open>(0, -5)\<close> is not \<open>(0, 0)\<close>, and the \<open>g\<close> of \<open>eGcd 0 (-5)\<close> is \<open>-5\<close>.
\<close>

theorem eGcd_g_negative_counterexample:
  "(0, - 5) \<noteq> (0, 0::int) \<and> \<not> 0 \<le> res_g (eGcd 0 (- 5))"
  by (simp add: eGcd_zero)

text \<open>
  C8, amended.  For every pair of non-negative integers \<open>a\<close> and \<open>b\<close>, the \<open>g\<close> component of
  \<open>eGcd a b\<close> is non-negative, and it is the greatest common divisor of \<open>a\<close> and \<open>b\<close>.
\<close>

theorem eGcd_g_nonneg:
  "0 \<le> a \<Longrightarrow> 0 \<le> b \<Longrightarrow> 0 \<le> res_g (eGcd a b) \<and> res_g (eGcd a b) = gcd a b"
  by (simp add: eGcd_g_gcd)

theorem eGcd_g_nonneg_witness:
  "(0::int) \<le> 16 \<and> (0::int) \<le> 10 \<and> 0 \<le> res_g (eGcd 16 10) \<and> res_g (eGcd 16 10) = gcd 16 10"
  using eGcd_g_nonneg [of 16 10] by simp

text \<open>
  C6 as stated fails at the modulus 1: \<open>gcd (toZn 0 1) 1 = 1\<close> and \<open>modInv 0 1\<close> returns 0,
  but \<open>(0 * 0) mod 1\<close> is 0 and not 1.
\<close>

theorem modInv_unit_modulus_counterexample:
  "(0::int) < 1 \<and> toZn 0 1 = Inr 0 \<and> gcd (0::int) 1 = 1 \<and> modInv 0 1 = Inr 0 \<and>
   (0 * 0) mod 1 \<noteq> (1::int)"
proof -
  have "toZn 0 1 = Inr 0" by code_simp
  moreover have "modInv 0 1 = Inr 0" by code_simp
  ultimately show ?thesis by simp
qed

text \<open>
  C6, amended.  For every integer \<open>a\<close> and every modulus \<open>m > 0\<close>, with \<open>z = toZn a m\<close>:
  \<open>modInv a m\<close> fails if and only if \<open>gcd z m \<noteq> 1\<close>, with the error "Modular inverse
  does not exist"; otherwise it returns an \<open>x\<close> in \<open>[0, m)\<close> with
  \<open>(a * x) mod m = 1 mod m\<close>, which is 1 for \<open>m > 1\<close> and 0 for \<open>m = 1\<close>.
\<close>

theorem modInv_correct:
  assumes "0 < m"
  shows "\<exists>z. toZn a m = Inr z \<and>
           ((\<exists>e. modInv a m = Inl e) \<longleftrightarrow> gcd z m \<noteq> 1) \<and>
           (gcd z m \<noteq> 1 \<longrightarrow> modInv a m = Inl (Error ''Modular inverse does not exist'')) \<and>
           (gcd z m = 1 \<longrightarrow>
              (\<exists>x. modInv a m = Inr x \<and> 0 \<le> x \<and> x < m \<and> (a * x) mod m = 1 mod m))"
proof -
  let ?x = "res_x (eGcd (a mod m) m) mod m"
  have x: "0 \<le> ?x" "?x < m"
    using assms by simp_all
  have inv: "gcd (a mod m) m = 1 \<Longrightarrow> (a * ?x) mod m = 1 mod m"
    using assms by (rule modInv_inverse)
  show ?thesis
    using assms x inv by (auto simp: toZn_pos modInv_pos)
qed

theorem modInv_correct_witness:
  "(0::int) < 7 \<and> toZn 3 7 = Inr 3 \<and> gcd (3::int) 7 = 1 \<and> modInv 3 7 = Inr 5 \<and>
   (3 * 5) mod 7 = (1::int) mod 7 \<and>
   (0::int) < 8 \<and> toZn 4 8 = Inr 4 \<and> gcd (4::int) 8 \<noteq> 1 \<and>
   modInv 4 8 = Inl (Error ''Modular inverse does not exist'')"
proof -
  have v: "toZn 3 7 = Inr 3" "modInv 3 7 = Inr 5" "toZn 4 8 = Inr 4"
    by code_simp+
  have g: "gcd (3::int) 7 = 1" "gcd (4::int) 8 = 4"
    by code_simp+
  show ?thesis
    using modInv_correct [of 7 3] modInv_correct [of 8 4] by (simp add: v g)
qed

text \<open>
  C7 as stated fails: the modulus \<open>-5\<close> is not zero and no inverse is asked for, yet
  \<open>modPow 2 3 (-5)\<close> raises the error of \<open>toZn\<close>.
\<close>

theorem modPow_negative_modulus_counterexample:
  "(- 5::int) \<noteq> 0 \<and> modPow 2 3 (- 5) = Inl (Error ''m must be > 0'')"
proof -
  have "modPow 2 3 (- 5) = Inl (Error ''m must be > 0'')" by code_simp
  then show ?thesis by simp
qed

text \<open>
  C7, amended.  \<open>modPow base exp m\<close> fails with "Cannot modPow with modulus 0" when
  \<open>m = 0\<close>.  For \<open>m \<noteq> 0\<close> and \<open>exp = 0\<close> it returns 1, whatever the base and the sign of
  \<open>m\<close>.  For \<open>m < 0\<close> and \<open>exp \<noteq> 0\<close> it fails with the error "m must be > 0" of \<open>toZn\<close>.
  For \<open>m > 0\<close> and \<open>exp > 0\<close> it does not raise and returns \<open>base ^ exp mod m\<close>.  For
  \<open>m > 0\<close> and \<open>exp < 0\<close> it is \<open>modInv\<close> of \<open>base ^ |exp| mod m\<close>, and raises exactly when
  that value has no inverse modulo \<open>m\<close>.
\<close>

theorem modPow_domain:
  "(m = 0 \<longrightarrow> modPow base exp m = Inl (Error ''Cannot modPow with modulus 0'')) \<and>
   (m \<noteq> 0 \<longrightarrow> modPow base 0 m = Inr 1) \<and>
   (m < 0 \<and> exp \<noteq> 0 \<longrightarrow> modPow base exp m = Inl (Error ''m must be > 0'')) \<and>
   (0 < m \<and> 0 < exp \<longrightarrow> modPow base exp m = Inr (base ^ nat exp mod m)) \<and>
   (0 < m \<and> exp < 0 \<longrightarrow>
      modPow base exp m = modInv (base ^ nat (- exp) mod m) m \<and>
      ((\<exists>e. modPow base exp m = Inl e) \<longleftrightarrow> gcd (base ^ nat (- exp) mod m) m \<noteq> 1))"
proof (intro conjI impI)
  assume "m = 0"
  then show "modPow base exp m = Inl (Error ''Cannot modPow with modulus 0'')"
    by (simp add: modPow.simps)
next
  assume "m \<noteq> 0"
  then show "modPow base 0 m = Inr 1"
    by (simp add: modPow.simps)
next
  assume "m < 0 \<and> exp \<noteq> 0"
  then show "modPow base exp m = Inl (Error ''m must be > 0'')"
    by (subst modPow.simps) (simp add: toZn_nonpos)
next
  assume "0 < m \<and> 0 < exp"
  then show "modPow base exp m = Inr (base ^ nat exp mod m)"
    by (simp add: modPow_pos)
next
  assume h: "0 < m \<and> exp < 0"
  then show eq: "modPow base exp m = modInv (base ^ nat (- exp) mod m) m"
    by (simp add: modPow_neg_exp)
  show "(\<exists>e. modPow base exp m = Inl e) \<longleftrightarrow> gcd (base ^ nat (- exp) mod m) m \<noteq> 1"
    using h by (simp add: eq modInv_pos)
qed

theorem modPow_domain_witness:
  "modPow 3 5 0 = Inl (Error ''Cannot modPow with modulus 0'') \<and>
   (- 5::int) \<noteq> 0 \<and> modPow 0 0 (- 5) = Inr 1 \<and>
   (- 5::int) < 0 \<and> (3::int) \<noteq> 0 \<and> modPow 2 3 (- 5) = Inl (Error ''m must be > 0'') \<and>
   (0::int) < 7 \<and> (0::int) < 5 \<and> modPow 3 5 7 = Inr 5 \<and>
   (- 1::int) < 0 \<and> modPow 3 (- 1) 7 = Inr 5 \<and>
   modPow 4 (- 1) 8 = Inl (Error ''Modular inverse does not exist'')"
proof -
  have v: "modInv 3 7 = Inr 5" "modInv 4 8 = Inl (Error ''Modular inverse does not exist'')"
    by code_simp+
  show ?thesis
    using modPow_domain [of 0 3 5] modPow_domain [of "- 5" 0 0] modPow_domain [of "- 5" 2 3]
      modPow_domain [of 7 3 5] modPow_domain [of 7 3 "- 1"] modPow_domain [of 8 4 "- 1"]
    by (simp add: v)
qed

text \<open>
  C10.  \<open>negate n\<close> is \<open>- |n|\<close> for every integer \<open>n\<close>, so the result is never positive, and
  \<open>negate\<close> is no involution: a negative input is returned unchanged, \<open>negate (-5) = -5\<close>,
  and \<open>negate (negate 5)\<close> is not 5.
\<close>

theorem negate_nonpos:
  "negate n = - \<bar>n\<bar> \<and> negate n \<le> 0 \<and> (n < 0 \<longrightarrow> negate n = n) \<and>
   negate (- 5) = - 5 \<and> negate (negate 5) \<noteq> 5"
  by (simp add: negate_def abs_bigint_def)

theorem negate_nonpos_witness:
  "(- 5::int) < 0 \<and> negate (- 5) = - \<bar>- 5\<bar> \<and> negate (- 5) \<le> 0 \<and> negate (- 5) = - 5"
  using negate_nonpos [of "- 5"] by simp


section \<open>Bytes\<close>

lemma int_and_ff: "v AND 0xff = v mod 256" for v :: int
proof -
  have "v AND 0xff = v AND mask 8"
    by (simp add: mask_eq_exp_minus_1)
  also have "\<dots> = take_bit 8 v"
    by (simp only: take_bit_eq_mask)
  also have "\<dots> = v mod 256"
    by (simp add: take_bit_eq_mod)
  finally show ?thesis .
qed

lemma byte_sign_bit: "(b AND 0x80 \<noteq> 0) \<longleftrightarrow> 128 \<le> uint b" for b :: "8 word"
proof -
  have "(0x80 :: 8 word) = 2 ^ 7" by simp
  then have "(b AND 0x80 \<noteq> 0) \<longleftrightarrow> bit b 7"
    by (simp only: and_exp_eq_0_iff_not_bit) simp
  also have "\<dots> \<longleftrightarrow> bit (uint b) 7"
    by (simp add: bit_uint_iff)
  also have "\<dots> \<longleftrightarrow> odd (uint b div 2 ^ 7)"
    by (simp only: bit_iff_odd)
  also have "\<dots> \<longleftrightarrow> 128 \<le> uint b"
  proof -
    have "0 \<le> uint b" "uint b < 256"
      using uint_lt2p [of b] by simp_all
    then have "uint b div 128 = (if 128 \<le> uint b then 1 else 0)"
      by auto
    then show ?thesis by simp
  qed
  finally show ?thesis .
qed

lemma uint_not_byte: "uint (NOT b AND 0xff) = 255 - uint b" for b :: "8 word"
proof -
  have "uint (NOT b AND 0xff) = uint (NOT b) AND 0xff"
    by (simp add: uint_and)
  also have "\<dots> = uint (NOT b) mod 256"
    by (rule int_and_ff)
  also have "\<dots> = uint (NOT b)"
    using uint_lt2p [of "NOT b"] by simp
  also have "\<dots> = (- uint b - 1) mod 256"
    by (simp add: unsigned_not_eq take_bit_eq_mod not_int_def)
  also have "\<dots> = 255 - uint b"
  proof -
    have "0 \<le> uint b" "uint b < 256"
      using uint_lt2p [of b] by simp_all
    have "- uint b - 1 = 255 - uint b + (- 1) * 256"
      by arith
    then have "(- uint b - 1) mod 256 = (255 - uint b + (- 1) * 256) mod 256"
      by (rule arg_cong)
    also have "\<dots> = (255 - uint b) mod 256"
      by (rule mod_mult_self1)
    also have "\<dots> = 255 - uint b"
    proof (rule mod_pos_pos_trivial)
      show "0 \<le> 255 - uint b" using \<open>uint b < 256\<close> by arith
      show "255 - uint b < 256" using \<open>0 \<le> uint b\<close> by arith
    qed
    finally show ?thesis .
  qed
  finally show ?thesis .
qed


lemma int_drop_bit8: "drop_bit 8 v = v div 256" for v :: int
  by (simp add: drop_bit_eq_div)

lemma be_val_Nil: "be_val [] = 0"
  by (simp add: be_val_def)

lemma be_val_snoc: "be_val (xs @ [b]) = be_val xs * 256 + uint b"
  by (simp add: be_val_def)

lemma be_val_bounds: "0 \<le> be_val xs \<and> be_val xs < 256 ^ length xs"
proof (induction xs rule: rev_induct)
  case Nil
  show ?case by (simp add: be_val_Nil)
next
  case (snoc b xs)
  have "0 \<le> uint b" "uint b < 256"
    using uint_lt2p [of b] by simp_all
  moreover have "be_val xs + 1 \<le> 256 ^ length xs"
    using snoc.IH by simp
  then have "(be_val xs + 1) * 256 \<le> 256 ^ length xs * 256"
    by (rule mult_right_mono) simp
  ultimately show ?case
    using snoc.IH by (simp add: be_val_snoc algebra_simps)
qed

lemma be_val_Cons: "be_val (b # xs) = uint b * 256 ^ length xs + be_val xs"
proof (induction xs rule: rev_induct)
  case Nil
  show ?case using be_val_snoc [of "[]" b] by (simp add: be_val_Nil)
next
  case (snoc c xs)
  have "be_val (b # xs @ [c]) = be_val ((b # xs) @ [c])" by simp
  also have "\<dots> = be_val (b # xs) * 256 + uint c" by (rule be_val_snoc)
  finally show ?case
    using snoc.IH by (simp add: be_val_snoc algebra_simps)
qed

lemma accumulate_be_val: "foldl (\<lambda>result b. push_bit 8 result + uint b) 0 bytes = be_val bytes"
  by (simp add: be_val_def push_bit_eq_mult)

lemma be_val_complement:
  "be_val (map (\<lambda>b. NOT b AND 0xff) xs) = 256 ^ length xs - 1 - be_val xs"
proof (induction xs rule: rev_induct)
  case Nil
  show ?case by (simp add: be_val_Nil)
next
  case (snoc b xs)
  then show ?case
    by (simp add: be_val_snoc uint_not_byte algebra_simps)
qed

lemma add_carry_stop: "\<not> (0 \<le> i \<and> 0 < c) \<Longrightarrow> add_carry xs i c = xs"
  by (subst add_carry.simps) auto

lemma add_carry_step:
  "0 \<le> i \<Longrightarrow> 0 < c \<Longrightarrow>
   add_carry xs i c =
     add_carry (xs[nat i := word_of_int ((uint (xs ! nat i) + c) AND 0xff)]) (i - 1)
       (drop_bit 8 (uint (xs ! nat i) + c))"
  by (subst add_carry.simps) (simp add: Let_def)

lemma length_add_carry: "length (add_carry xs i c) = length xs"
proof (induction xs i c rule: add_carry.induct)
  case (1 bytes i carry)
  show ?case
  proof (cases "i \<ge> 0 \<and> carry > 0")
    case True
    then show ?thesis
      using "1.IH" [OF True refl] by (simp add: add_carry_step)
  next
    case False
    then show ?thesis by (simp add: add_carry_stop)
  qed
qed

lemma add_carry_append:
  "i < int (length xs) \<Longrightarrow> add_carry (xs @ ys) i c = add_carry xs i c @ ys"
proof (induction xs i c rule: add_carry.induct)
  case (1 bytes i carry)
  show ?case
  proof (cases "i \<ge> 0 \<and> carry > 0")
    case True
    let ?v = "uint (bytes ! nat i) + carry"
    let ?bytes = "bytes[nat i := word_of_int (?v AND 0xff)]"
    have i: "nat i < length bytes"
      using True "1.prems" by (simp add: nat_less_iff)
    have ih: "add_carry (?bytes @ ys) (i - 1) (drop_bit 8 ?v) = add_carry ?bytes (i - 1) (drop_bit 8 ?v) @ ys"
      using "1.IH" [OF True refl] "1.prems" by simp
    have "add_carry (bytes @ ys) i carry = add_carry (?bytes @ ys) (i - 1) (drop_bit 8 ?v)"
      using True i by (simp add: add_carry_step nth_append list_update_append1)
    also have "\<dots> = add_carry ?bytes (i - 1) (drop_bit 8 ?v) @ ys"
      by (rule ih)
    also have "add_carry ?bytes (i - 1) (drop_bit 8 ?v) = add_carry bytes i carry"
      using True by (simp add: add_carry_step)
    finally show ?thesis .
  next
    case False
    then show ?thesis by (simp add: add_carry_stop)
  qed
qed

lemma add_carry_no_carry: "add_carry xs i 0 = xs"
  by (subst add_carry.simps) simp

lemma mod_mult_256:
  "0 \<le> r \<Longrightarrow> r < 256 \<Longrightarrow> 0 < M \<Longrightarrow> (a * 256 + r) mod (M * 256) = (a mod M) * 256 + r" for a r M :: int
proof -
  assume r: "0 \<le> r" "r < 256" and M: "0 < M"
  have d: "(a * 256 + r) div 256 = a"
    using r by (simp add: div_pos_pos_trivial)
  have m: "r mod 256 = r"
    using r by (simp add: mod_pos_pos_trivial)
  have "(a * 256 + r) mod (256 * M) = 256 * ((a * 256 + r) div 256 mod M) + (a * 256 + r) mod 256"
    using M by (intro zmod_zmult2_eq) simp
  then show ?thesis
    by (simp add: d m mult.commute)
qed

lemma add_carry_val:
  "0 \<le> c \<Longrightarrow> be_val (add_carry xs (int (length xs) - 1) c) = (be_val xs + c) mod 256 ^ length xs"
proof (induction xs arbitrary: c rule: rev_induct)
  case Nil
  show ?case
    by (subst add_carry.simps) (simp add: be_val_Nil)
next
  case (snoc b xs)
  show ?case
  proof (cases "c = 0")
    case True
    have "be_val (xs @ [b]) mod 256 ^ length (xs @ [b]) = be_val (xs @ [b])"
      using be_val_bounds [of "xs @ [b]"] by (intro mod_pos_pos_trivial) simp_all
    with True show ?thesis
      by (simp add: add_carry_no_carry)
  next
    case False
    with snoc.prems have c: "0 < c" by simp
    let ?t = "uint b + c"
    let ?b' = "word_of_int (?t AND 0xff) :: u8"
    have t: "0 \<le> ?t" using snoc.prems by simp
    have b': "uint ?b' = ?t mod 256"
      by (simp add: int_and_ff uint_word_of_int)
    have c': "0 \<le> ?t div 256"
      using t by (simp add: pos_imp_zdiv_nonneg_iff)
    have "add_carry (xs @ [b]) (int (length (xs @ [b])) - 1) c
        = add_carry (xs @ [?b']) (int (length xs) - 1) (drop_bit 8 ?t)"
      using c by (simp add: add_carry_step)
    also have "\<dots> = add_carry xs (int (length xs) - 1) (?t div 256) @ [?b']"
      by (simp add: add_carry_append int_drop_bit8)
    finally have "be_val (add_carry (xs @ [b]) (int (length (xs @ [b])) - 1) c)
        = ((be_val xs + ?t div 256) mod 256 ^ length xs) * 256 + ?t mod 256"
      using snoc.IH [OF c'] by (simp add: be_val_snoc b')
    also have "\<dots> = ((be_val xs + ?t div 256) * 256 + ?t mod 256) mod (256 ^ length xs * 256)"
      by (rule mod_mult_256 [symmetric]) simp_all
    also have "(be_val xs + ?t div 256) * 256 + ?t mod 256 = be_val (xs @ [b]) + c"
      by (simp add: be_val_snoc algebra_simps)
    finally show ?thesis by (simp add: mult.commute)
  qed
qed

lemma sign_bit_set_iff: "sign_bit_set bytes \<longleftrightarrow> bytes \<noteq> [] \<and> 128 \<le> uint (hd bytes)"
  by (cases bytes) (simp_all add: sign_bit_set_def byte_sign_bit)

lemma sign_bit_set_be_val:
  assumes "bytes \<noteq> []"
  shows "sign_bit_set bytes \<longleftrightarrow> 128 * 256 ^ (length bytes - 1) \<le> be_val bytes"
proof -
  from assms obtain b xs where bytes: "bytes = b # xs"
    by (cases bytes) auto
  have r: "0 \<le> be_val xs" "be_val xs < 256 ^ length xs"
    using be_val_bounds [of xs] by simp_all
  have p: "(0::int) < 256 ^ length xs" by simp
  have "128 \<le> uint b \<longleftrightarrow> 128 * 256 ^ length xs \<le> uint b * 256 ^ length xs + be_val xs"
  proof
    assume "128 \<le> uint b"
    then have "128 * 256 ^ length xs \<le> uint b * 256 ^ length xs"
      by (intro mult_right_mono) simp_all
    with r show "128 * 256 ^ length xs \<le> uint b * 256 ^ length xs + be_val xs"
      by linarith
  next
    assume h: "128 * 256 ^ length xs \<le> uint b * 256 ^ length xs + be_val xs"
    show "128 \<le> uint b"
    proof (rule ccontr)
      assume "\<not> 128 \<le> uint b"
      then have "uint b + 1 \<le> 128" by simp
      then have "(uint b + 1) * 256 ^ length xs \<le> 128 * 256 ^ length xs"
        by (intro mult_right_mono) simp_all
      then have "uint b * 256 ^ length xs + 256 ^ length xs \<le> 128 * 256 ^ length xs"
        by (simp only: distrib_right mult_1)
      with r h show False
        by linarith
    qed
  qed
  then show ?thesis
    by (simp add: bytes sign_bit_set_iff be_val_Cons)
qed

lemma uint8ToBigint_plain:
  "\<not> (flag \<and> sign_bit_set bytes) \<Longrightarrow> uint8ToBigint bytes flag = (be_val bytes, bytes)"
  by (auto simp: uint8ToBigint_def Let_def sign_bit_set_def accumulate_be_val)

lemma uint8ToBigint_negative:
  assumes "sign_bit_set bytes"
  shows "fst (uint8ToBigint bytes True) = be_val bytes - 256 ^ length bytes"
    and "length (snd (uint8ToBigint bytes True)) = length bytes"
    and "be_val (snd (uint8ToBigint bytes True)) = 256 ^ length bytes - be_val bytes"
proof -
  let ?inv = "map (\<lambda>b. NOT b AND 0xff) bytes"
  let ?bytes = "add_carry ?inv (int (length bytes) - 1) 1"
  have ne: "bytes \<noteq> []"
    using assms by (simp add: sign_bit_set_iff)
  have u: "uint8ToBigint bytes True = (- be_val ?bytes, ?bytes)"
    using assms by (simp add: uint8ToBigint_def Let_def sign_bit_set_def accumulate_be_val)
  have "be_val ?bytes = (be_val ?inv + 1) mod 256 ^ length ?inv"
    using add_carry_val [of 1 ?inv] by simp
  also have "\<dots> = (256 ^ length bytes - be_val bytes) mod 256 ^ length bytes"
    by (simp add: be_val_complement)
  also have "\<dots> = 256 ^ length bytes - be_val bytes"
  proof (rule mod_pos_pos_trivial)
    show "0 \<le> 256 ^ length bytes - be_val bytes"
      using be_val_bounds [of bytes] by simp
    have "(0::int) < 128 * 256 ^ (length bytes - 1)" by simp
    moreover have "128 * 256 ^ (length bytes - 1) \<le> be_val bytes"
      using assms ne by (simp add: sign_bit_set_be_val)
    ultimately have "0 < be_val bytes"
      by linarith
    then show "256 ^ length bytes - be_val bytes < 256 ^ length bytes"
      by simp
  qed
  finally have v: "be_val ?bytes = 256 ^ length bytes - be_val bytes" .
  show "fst (uint8ToBigint bytes True) = be_val bytes - 256 ^ length bytes"
    by (simp add: u v)
  show "length (snd (uint8ToBigint bytes True)) = length bytes"
    by (simp add: u length_add_carry)
  show "be_val (snd (uint8ToBigint bytes True)) = 256 ^ length bytes - be_val bytes"
    by (simp add: u v)
qed

section \<open>Digit strings\<close>

lemma hex_digit_digit_char: "d < 16 \<Longrightarrow> hex_digit (digit_char d) = Some d"
  by (auto simp: hex_digit_def digit_char_def Let_def)

lemma hex_digit_bound: "hex_digit c = Some d \<Longrightarrow> d < 16"
  by (auto simp: hex_digit_def Let_def split: if_splits)

lemma hex_digit_not_sign: "hex_digit c \<noteq> None \<Longrightarrow> c \<noteq> CHR ''-'' \<and> c \<noteq> CHR ''+''"
  by (auto simp: hex_digit_def Let_def)

lemma nat_toString_small: "n < radix \<Longrightarrow> nat_toString radix n = [digit_char n]"
  by (subst nat_toString.simps) simp

lemma nat_toString_big:
  "2 \<le> radix \<Longrightarrow> radix \<le> n \<Longrightarrow>
   nat_toString radix n = nat_toString radix (n div radix) @ [digit_char (n mod radix)]"
  by (subst nat_toString.simps) simp

lemma nat_toString_hex_digits: "list_all (\<lambda>c. hex_digit c \<noteq> None) (nat_toString 16 n)"
proof (induction n rule: less_induct)
  case (less n)
  show ?case
  proof (cases "n < 16")
    case True
    then show ?thesis
      by (simp add: nat_toString_small hex_digit_digit_char)
  next
    case False
    then have "n div 16 < n" by simp
    then have "list_all (\<lambda>c. hex_digit c \<noteq> None) (nat_toString 16 (n div 16))"
      by (rule less.IH)
    with False show ?thesis
      by (simp add: nat_toString_big hex_digit_digit_char)
  qed
qed

lemma hex_value_snoc: "hex_value (ds @ [c]) = hex_value ds * 16 + int (the (hex_digit c))"
  by (simp add: hex_value_def)

lemma hex_value_nat_toString: "hex_value (nat_toString 16 n) = int n"
proof (induction n rule: less_induct)
  case (less n)
  show ?case
  proof (cases "n < 16")
    case True
    then show ?thesis
      by (simp add: nat_toString_small hex_digit_digit_char hex_value_def)
  next
    case False
    then have "n div 16 < n" by simp
    then have "hex_value (nat_toString 16 (n div 16)) = int (n div 16)"
      by (rule less.IH)
    with False show ?thesis
      by (simp add: nat_toString_big hex_value_snoc hex_digit_digit_char zdiv_int zmod_int)
  qed
qed

lemma length_nat_toString_pos: "0 < length (nat_toString radix n)"
  by (subst nat_toString.simps) simp

lemma length_nat_toString:
  assumes "2 \<le> radix" and "0 < n"
  shows "radix ^ (length (nat_toString radix n) - 1) \<le> n \<and> n < radix ^ length (nat_toString radix n)"
  using assms(2)
proof (induction n rule: less_induct)
  case (less n)
  show ?case
  proof (cases "n < radix")
    case True
    with less.prems show ?thesis
      by (simp add: nat_toString_small)
  next
    case False
    let ?q = "n div radix"
    let ?l = "length (nat_toString radix ?q)"
    have q: "0 < ?q" "?q < n"
      using False assms(1) by (simp_all add: div_greater_zero_iff)
    have ih: "radix ^ (?l - 1) \<le> ?q" "?q < radix ^ ?l"
      using less.IH [OF q(2) q(1)] by simp_all
    have l: "0 < ?l" by (rule length_nat_toString_pos)
    have len: "length (nat_toString radix n) = Suc ?l"
      using False assms(1) by (simp add: nat_toString_big)
    have "radix ^ ?l = radix ^ (?l - 1) * radix"
      using l by (cases ?l) simp_all
    also have "\<dots> \<le> ?q * radix"
      using ih(1) by (rule mult_right_mono) simp
    also have "\<dots> \<le> n"
      by simp
    finally have lo: "radix ^ ?l \<le> n" .
    have "Suc ?q \<le> radix ^ ?l"
      using ih(2) by simp
    then have "Suc ?q * radix \<le> radix ^ ?l * radix"
      by (rule mult_right_mono) simp
    moreover have "n < Suc ?q * radix"
      using assms(1) by (simp add: dividend_less_div_times)
    ultimately have "n < radix ^ ?l * radix"
      by (rule less_le_trans [rotated])
    then have hi: "n < radix ^ Suc ?l"
      by (simp add: mult.commute)
    show ?thesis
      using lo hi by (simp add: len)
  qed
qed

lemma hexToUint8_Nil: "hexToUint8 [] = []"
  by (simp add: hexToUint8_def)

lemma hexToUint8_Cons2:
  "hexToUint8 (c1 # c2 # rest) = toUint8 (parseInt16 [c1, c2]) # hexToUint8 rest"
proof -
  have "[0..<Suc (length rest div 2)] = 0 # map Suc [0..<length rest div 2]"
    by (simp add: upt_conv_Cons map_Suc_upt del: upt_Suc)
  then show ?thesis
    by (simp add: hexToUint8_def slice_def comp_def del: upt_Suc)
qed

lemma length_hexToUint8: "length (hexToUint8 hex) = length hex div 2"
  by (simp add: hexToUint8_def)

lemma toUint8_parseInt16_pair:
  assumes "hex_digit c1 = Some d1" and "hex_digit c2 = Some d2"
  shows "uint (toUint8 (parseInt16 [c1, c2])) = int d1 * 16 + int d2"
proof -
  have s: "c1 \<noteq> CHR ''-''" "c1 \<noteq> CHR ''+''"
    using assms(1) hex_digit_not_sign [of c1] by simp_all
  have p: "parseInt16 [c1, c2] = Some (int d1 * 16 + int d2)"
    using assms s by (simp add: parseInt16_def hex_value_def)
  have "d1 < 16" "d2 < 16"
    using assms by (simp_all add: hex_digit_bound)
  then have "(int d1 * 16 + int d2) mod 256 = int d1 * 16 + int d2"
    by (intro mod_pos_pos_trivial) simp_all
  moreover have "uint (toUint8 (parseInt16 [c1, c2])) = (int d1 * 16 + int d2) mod 2 ^ LENGTH(8)"
    by (simp only: p toUint8_def option.case uint_word_of_int)
  ultimately show ?thesis
    by simp
qed

lemma foldl_hexToUint8:
  "even (length hex) \<Longrightarrow> list_all (\<lambda>c. hex_digit c \<noteq> None) hex \<Longrightarrow>
   foldl (\<lambda>acc b. acc * 256 + uint b) acc (hexToUint8 hex)
     = foldl (\<lambda>acc c. acc * 16 + int (the (hex_digit c))) acc hex"
proof (induction hex arbitrary: acc rule: induct_list012)
  case 1
  show ?case by (simp add: hexToUint8_Nil)
next
  case (2 x)
  then show ?case by simp
next
  case (3 c1 c2 rest)
  from "3.prems" obtain d1 d2 where d: "hex_digit c1 = Some d1" "hex_digit c2 = Some d2"
    by auto
  have "even (length rest)" "list_all (\<lambda>c. hex_digit c \<noteq> None) rest"
    using "3.prems" by simp_all
  then show ?case
    using "3.IH"(1) by (simp add: hexToUint8_Cons2 toUint8_parseInt16_pair [OF d] d algebra_simps)
qed

lemma be_val_hexToUint8:
  "even (length hex) \<Longrightarrow> list_all (\<lambda>c. hex_digit c \<noteq> None) hex \<Longrightarrow>
   be_val (hexToUint8 hex) = hex_value hex"
  by (simp add: be_val_def hex_value_def foldl_hexToUint8)

lemma hex_digit_zero: "hex_digit CHR ''0'' = Some 0"
  by (simp add: hex_digit_def)

lemma hex_value_Cons_zero: "hex_value (CHR ''0'' # ds) = hex_value ds"
  by (simp add: hex_value_def hex_digit_zero)

lemma bigintToHexPadZero_nonneg:
  assumes "0 \<le> num"
  shows "even (length (bigintToHexPadZero num))"
    and "list_all (\<lambda>c. hex_digit c \<noteq> None) (bigintToHexPadZero num)"
    and "hex_value (bigintToHexPadZero num) = num"
    and "length (bigintToHexPadZero num) div 2 = (length (nat_toString 16 (nat num)) + 1) div 2"
proof -
  let ?s = "nat_toString 16 (nat num)"
  have p: "bigintToHexPadZero num = (if odd (length ?s) then CHR ''0'' # ?s else ?s)"
    using assms
    by (simp add: bigintToHexPadZero_def bigintToHex_def hexPadZero_def bigint_toString_def
        odd_iff_mod_2_eq_one)
  show "even (length (bigintToHexPadZero num))"
    by (simp add: p)
  show "list_all (\<lambda>c. hex_digit c \<noteq> None) (bigintToHexPadZero num)"
    using nat_toString_hex_digits [of "nat num"] by (simp add: p hex_digit_zero)
  show "hex_value (bigintToHexPadZero num) = num"
    using assms by (simp add: p hex_value_Cons_zero hex_value_nat_toString)
  show "length (bigintToHexPadZero num) div 2 = (length ?s + 1) div 2"
    by (auto simp: p elim: oddE)
qed

lemma bigintToUint8_nonneg:
  assumes "0 \<le> num"
  shows "bigintToUint8 num flag = Inr (hexToUint8 (bigintToHexPadZero num))"
    and "be_val (hexToUint8 (bigintToHexPadZero num)) = num"
    and "length (hexToUint8 (bigintToHexPadZero num)) = (length (nat_toString 16 (nat num)) + 1) div 2"
  using assms bigintToHexPadZero_nonneg [OF assms]
  by (simp_all add: bigintToUint8_def be_val_hexToUint8 length_hexToUint8)

lemma roundtrip_nonneg_plain:
  assumes "0 \<le> v"
  shows "\<exists>bytes. bigintToUint8 v False = Inr bytes \<and> uint8ToBigint bytes False = (v, bytes)"
  using bigintToUint8_nonneg(1) [OF assms, of False] bigintToUint8_nonneg(2) [OF assms]
  by (simp add: uint8ToBigint_plain)

section \<open>Encoding a negative value\<close>

lemma pow256: "(256::int) ^ k = 2 ^ (8 * k)"
  by (simp add: power_mult)

lemma pow16: "(16::nat) ^ k = 2 ^ (4 * k)"
  by (simp add: power_mult)

lemma length_bigint_toString_neg:
  assumes "v < 0"
  shows "length (bigint_toString v 2) = Suc (length (nat_toString 2 (nat (- v))))"
    and "2 ^ (length (bigint_toString v 2) - 2) \<le> - v"
    and "- v < 2 ^ (length (bigint_toString v 2) - 1)"
proof -
  let ?a = "nat (- v)"
  let ?l = "length (nat_toString 2 ?a)"
  have a: "0 < ?a" "int ?a = - v" using assms by simp_all
  show len: "length (bigint_toString v 2) = Suc ?l"
    using assms by (simp add: bigint_toString_def)
  have b: "2 ^ (?l - 1) \<le> ?a" "?a < 2 ^ ?l"
    using length_nat_toString [of 2 ?a] a(1) by simp_all
  have "int (2 ^ (?l - 1)) \<le> int ?a"
    using b(1) by (simp only: of_nat_le_iff)
  then show "2 ^ (length (bigint_toString v 2) - 2) \<le> - v"
    using assms by (simp add: len)
  have "int ?a < int (2 ^ ?l)"
    using b(2) by (simp only: of_nat_less_iff)
  then show "- v < 2 ^ (length (bigint_toString v 2) - 1)"
    using assms by (simp add: len)
qed

lemma bigintToUint8_negative_unfold:
  assumes "v < 0"
  shows "bigintToUint8 v True =
     Inr (hexToUint8 (bigintToHexPadZero (v + 2 ^ (8 * (length (bigint_toString v 2) div 8 + 1)))))"
proof -
  let ?L = "length (bigint_toString v 2)"
  have "int ?L sdiv 8 = int (?L div 8)"
    by (simp add: sdiv_nonneg zdiv_int)
  then have "nat ((int ?L sdiv 8 + 1) * 8) = 8 * (?L div 8 + 1)"
    by (simp add: nat_add_distrib nat_mult_distrib)
  then show ?thesis
    using assms by (simp add: bigintToUint8_def Let_def push_bit_eq_mult)
qed

lemma encode_negative_range:
  assumes "v < 0"
  defines "k \<equiv> length (bigint_toString v 2) div 8 + 1"
  shows "2 ^ (8 * k - 1) \<le> v + 2 ^ (8 * k)" and "v + 2 ^ (8 * k) < 2 ^ (8 * k)"
proof -
  let ?L = "length (bigint_toString v 2)"
  have L: "?L < 8 * k" "1 \<le> ?L"
    using length_bigint_toString_neg(1) [OF assms(1)] by (simp_all add: k_def)
  then have "?L - 1 \<le> 8 * k - 2" by simp
  then have "(2::int) ^ (?L - 1) \<le> 2 ^ (8 * k - 2)"
    by (rule power_increasing) simp
  then have a: "- v < 2 ^ (8 * k - 2)"
    using length_bigint_toString_neg(3) [OF assms(1)] by linarith
  have k: "8 * k = Suc (Suc (8 * k - 2))" "8 * k - 1 = Suc (8 * k - 2)"
    using L by simp_all
  have "(2::int) ^ (8 * k) = 4 * 2 ^ (8 * k - 2)"
    by (subst k(1)) simp
  moreover have "(2::int) ^ (8 * k - 1) = 2 * 2 ^ (8 * k - 2)"
    by (subst k(2)) simp
  moreover have "(0::int) < 2 ^ (8 * k - 2)" by simp
  ultimately show "2 ^ (8 * k - 1) \<le> v + 2 ^ (8 * k)"
    using a by linarith
  show "v + 2 ^ (8 * k) < 2 ^ (8 * k)"
    using assms(1) by simp
qed

lemma hex_length_unique:
  assumes "2 ^ (8 * k - 1) \<le> V" and "V < 2 ^ (8 * k)" and "0 < k"
  shows "length (nat_toString 16 V) = 2 * k"
proof -
  let ?l = "length (nat_toString 16 V)"
  have V: "0 < V" using assms(1) by (simp add: less_le_trans [OF _ assms(1)])
  have b: "16 ^ (?l - 1) \<le> V" "V < 16 ^ ?l"
    using length_nat_toString [of 16 V] V by simp_all
  have "(2::nat) ^ (4 * (?l - 1)) < 2 ^ (8 * k)"
    using b(1) assms(2) unfolding pow16 by (rule le_less_trans)
  then have "4 * (?l - 1) < 8 * k"
    by (simp only: power_strict_increasing_iff) 
  then have up: "?l \<le> 2 * k" by simp
  have "(2::nat) ^ (8 * k - 1) < 2 ^ (4 * ?l)"
    using assms(1) b(2) unfolding pow16 by (rule le_less_trans)
  then have "8 * k - 1 < 4 * ?l"
    by (simp only: power_strict_increasing_iff)
  then have "2 * k \<le> ?l" using assms(3) by simp
  with up show ?thesis by simp
qed

lemma encode_negative:
  assumes "v < 0"
  defines "k \<equiv> length (bigint_toString v 2) div 8 + 1"
  defines "bytes \<equiv> hexToUint8 (bigintToHexPadZero (v + 2 ^ (8 * k)))"
  shows "bigintToUint8 v True = Inr bytes"
    and "be_val bytes = v + 2 ^ (8 * k)"
    and "length bytes = k"
    and "sign_bit_set bytes"
    and "fst (uint8ToBigint bytes True) = v"
proof -
  let ?V = "v + 2 ^ (8 * k)"
  have r: "2 ^ (8 * k - 1) \<le> ?V" "?V < 2 ^ (8 * k)"
    using encode_negative_range [OF assms(1)] by (simp_all add: k_def)
  have kpos: "0 < k" by (simp add: k_def)
  have nn: "0 \<le> ?V"
    using r(1) by (rule order_trans [rotated]) simp
  show "bigintToUint8 v True = Inr bytes"
    using bigintToUint8_negative_unfold [OF assms(1)] by (simp add: bytes_def k_def)
  show val: "be_val bytes = ?V"
    using bigintToUint8_nonneg(2) [OF nn] by (simp add: bytes_def)
  have "int (2 ^ (8 * k - 1)) \<le> int (nat ?V)" "int (nat ?V) < int (2 ^ (8 * k))"
    using r nn by simp_all
  then have "2 ^ (8 * k - 1) \<le> nat ?V" "nat ?V < 2 ^ (8 * k)"
    by (simp_all only: of_nat_le_iff of_nat_less_iff)
  then have "length (nat_toString 16 (nat ?V)) = 2 * k"
    using kpos by (rule hex_length_unique)
  then show len: "length bytes = k"
    using bigintToUint8_nonneg(3) [OF nn] by (simp add: bytes_def)
  have ne: "bytes \<noteq> []"
    using len kpos by auto
  have "(128::int) * 256 ^ (k - 1) = 2 ^ 7 * 2 ^ (8 * (k - 1))"
    by (simp add: pow256)
  also have "\<dots> = 2 ^ (7 + 8 * (k - 1))"
    by (simp only: power_add)
  also have "7 + 8 * (k - 1) = 8 * k - 1"
    using kpos by simp
  finally have "(128::int) * 256 ^ (length bytes - 1) \<le> be_val bytes"
    using r(1) by (simp add: len val)
  then show sb: "sign_bit_set bytes"
    using ne by (simp add: sign_bit_set_be_val)
  show "fst (uint8ToBigint bytes True) = v"
    using uint8ToBigint_negative(1) [OF sb] by (simp add: val len pow256)
qed

section \<open>The byte codec and the random range\<close>

lemma digit_char_values:
  "digit_char 0 = CHR ''0''" "digit_char (Suc 0) = CHR ''1''" "digit_char 2 = CHR ''2''"
  "digit_char 3 = CHR ''3''" "digit_char 4 = CHR ''4''" "digit_char 5 = CHR ''5''"
  "digit_char 6 = CHR ''6''" "digit_char 7 = CHR ''7''" "digit_char 8 = CHR ''8''"
  "digit_char 9 = CHR ''9''" "digit_char 10 = CHR ''a''" "digit_char 11 = CHR ''b''"
  "digit_char 12 = CHR ''c''" "digit_char 13 = CHR ''d''" "digit_char 14 = CHR ''e''"
  "digit_char 15 = CHR ''f''"
  by code_simp+

lemmas toString_eval = bigintToHexPadZero_def bigintToHex_def hexPadZero_def bigint_toString_def
  nat_toString.simps digit_char_values

lemma encode_minus_128: "bigintToUint8 (- 128) True = Inr [255, 128]"
proof -
  have "length (bigint_toString (- 128) 2) = 9"
    by (simp add: toString_eval)
  moreover have "bigintToHexPadZero 65408 = ''ff80''"
    by (simp add: toString_eval)
  moreover have "hexToUint8 ''ff80'' = [255, 128]"
    by code_simp
  ultimately show ?thesis
    by (simp add: bigintToUint8_def signed_divide_int_def)
qed

lemma length_toString_example: "length (bigint_toString (- 123456789) 2) = 28"
  by (simp add: toString_eval)

lemma encode_example: "bigintToUint8 (- 123456789) True = Inr [248, 164, 50, 235]"
proof -
  have "bigintToHexPadZero 4171510507 = ''f8a432eb''"
    by (simp add: toString_eval)
  moreover have "hexToUint8 ''f8a432eb'' = [248, 164, 50, 235]"
    by code_simp
  ultimately show ?thesis
    by (simp add: bigintToUint8_def signed_divide_int_def length_toString_example)
qed

lemma decode_example:
  "uint8ToBigint [248, 164, 50, 235] True = (- 123456789, [7, 91, 205, 21])"
  by code_simp

lemma roundtrip_nonneg_flag:
  assumes "0 \<le> v"
  shows "\<exists>bytes. bigintToUint8 v True = Inr bytes \<and> be_val bytes = v \<and>
           fst (uint8ToBigint bytes True) = (if sign_bit_set bytes then v - 256 ^ length bytes else v)"
  using bigintToUint8_nonneg(1) [OF assms, of True] bigintToUint8_nonneg(2) [OF assms]
  by (simp add: uint8ToBigint_plain uint8ToBigint_negative(1))

lemma roundtrip_negative:
  assumes "v < 0"
  shows "\<exists>bytes. bigintToUint8 v True = Inr bytes \<and> fst (uint8ToBigint bytes True) = v"
  using encode_negative(1,5) [OF assms] by blast

text \<open>
  C1.  The round trip with the flag set fails on the code for a non-negative value whose
  leading byte has its top bit set: 128 is encoded as the single byte \<open>0x80\<close>, which
  decodes to \<open>-128\<close>.
\<close>

theorem roundtrip_high_bit_failure:
  "bigintToUint8 128 True = Inr [128] \<and> fst (uint8ToBigint [128] True) = - 128"
proof -
  have "bigintToUint8 128 True = Inr [128]" by code_simp
  moreover have "uint8ToBigint [128] True = (- 128, [128])" by code_simp
  ultimately show ?thesis by simp
qed

text \<open>
  C2.  With \<open>start = end = 0\<close> and a source whose bytes are all 1, \<open>random\<close> returns 1,
  which is greater than \<open>end\<close>.
\<close>

theorem random_exceeds_end:
  "(0::int) \<le> 0 \<and> random 0 0 (\<lambda>_. 1) = Some (Inr 1) \<and> \<not> (1::int) \<le> 0"
proof -
  have "random 0 0 (\<lambda>_. 1) = Some (Inr 1)" by code_simp
  then show ?thesis by simp
qed

text \<open>
  C3 as stated fails: \<open>-128\<close> is encoded in two bytes, \<open>0xff 0x80\<close>, while the single
  byte \<open>0x80\<close> has its sign bit set and decodes to \<open>-128\<close>.
\<close>

theorem encoding_not_minimal_counterexample:
  "bigintToUint8 (- 128) True = Inr [255, 128] \<and>
   sign_bit_set [128] \<and> fst (uint8ToBigint [128] True) = - 128 \<and>
   length [128 :: u8] < length [255, 128 :: u8]"
proof -
  have "bigintToUint8 (- 128) True = Inr [255, 128]" by (rule encode_minus_128)
  moreover have "uint8ToBigint [128] True = (- 128, [128])" by code_simp
  moreover have "sign_bit_set [128]" by (simp add: sign_bit_set_def)
  ultimately show ?thesis by simp
qed

text \<open>
  C3, amended.  For every integer \<open>v < 0\<close>, with \<open>L\<close> the length of the base-2 string of
  \<open>v\<close>, minus sign included (so \<open>2 ^ (L - 2) \<le> |v| < 2 ^ (L - 1)\<close>),
  \<open>bigintToUint8 v true\<close> returns \<open>L div 8 + 1\<close> bytes, that is \<open>bits = 8 * (L div 8 + 1)\<close>,
  the smallest multiple of 8 strictly greater than \<open>L\<close>.  The bytes are the big-endian
  digits of \<open>v + 2 ^ bits\<close>, the sign bit of the first byte is set, and they decode to
  \<open>v\<close>: a byte-aligned two's-complement representation of \<open>v\<close>.  It is minimal or one
  byte longer than minimal: \<open>v\<close> fits in that many bytes and does not fit in two fewer.
\<close>

theorem bigintToUint8_negative:
  assumes "v < 0"
  shows "\<exists>bytes.
      bigintToUint8 v True = Inr bytes \<and>
      2 ^ (length (bigint_toString v 2) - 2) \<le> - v \<and>
      - v < 2 ^ (length (bigint_toString v 2) - 1) \<and>
      length bytes = length (bigint_toString v 2) div 8 + 1 \<and>
      be_val bytes = v + 2 ^ (8 * length bytes) \<and>
      sign_bit_set bytes \<and>
      fst (uint8ToBigint bytes True) = v \<and>
      fits_twos_complement v (length bytes) \<and>
      \<not> fits_twos_complement v (length bytes - 2)"
proof -
  let ?L = "length (bigint_toString v 2)"
  let ?k = "?L div 8 + 1"
  let ?bytes = "hexToUint8 (bigintToHexPadZero (v + 2 ^ (8 * ?k)))"
  note e = encode_negative [OF assms]
  note l = length_bigint_toString_neg [OF assms]
  have r: "2 ^ (8 * ?k - 1) \<le> v + 2 ^ (8 * ?k)"
    using encode_negative_range(1) [OF assms] .
  have k2: "(2::int) ^ (8 * ?k) = 2 * 2 ^ (8 * ?k - 1)"
    by (simp flip: power_Suc)
  have fits: "fits_twos_complement v ?k"
    using r k2 assms by (simp add: fits_twos_complement_def)
  have nofit: "\<not> fits_twos_complement v (?k - 2)"
  proof (cases "?k - 2 = 0")
    case True
    then show ?thesis by (simp add: fits_twos_complement_def)
  next
    case False
    have "8 * (?k - 2) - 1 < ?L - 2"
      using False by simp
    then have "(2::int) ^ (8 * (?k - 2) - 1) < 2 ^ (?L - 2)"
      by (rule power_strict_increasing) simp
    with l(2) have "2 ^ (8 * (?k - 2) - 1) < - v"
      by linarith
    then show ?thesis
      by (simp add: fits_twos_complement_def)
  qed
  show ?thesis
    using e l(2,3) fits nofit by (intro exI [of _ ?bytes]) simp
qed

theorem bigintToUint8_negative_witness:
  "(- 123456789 :: int) < 0 \<and>
   bigintToUint8 (- 123456789) True = Inr [248, 164, 50, 235] \<and>
   length (bigint_toString (- 123456789) 2) = 28 \<and>
   be_val [248, 164, 50, 235] = - 123456789 + 2 ^ 32 \<and>
   sign_bit_set [248, 164, 50, 235] \<and>
   fst (uint8ToBigint [248, 164, 50, 235] True) = - 123456789 \<and>
   fits_twos_complement (- 123456789) 4 \<and> \<not> fits_twos_complement (- 123456789) 2"
proof -
  have s: "sign_bit_set [248, 164, 50, 235]"
    by (simp add: sign_bit_set_def)
  have f: "fits_twos_complement (- 123456789) 4" "\<not> fits_twos_complement (- 123456789) 2"
    by (simp_all add: fits_twos_complement_def)
  have b: "be_val [248, 164, 50, 235] = - 123456789 + 2 ^ 32"
    by (simp add: be_val_def)
  show ?thesis
    using bigintToUint8_negative [of "- 123456789"]
    by (simp add: encode_example length_toString_example decode_example s f b)
qed

text \<open>
  C4 as stated fails: decoding the non-empty array \<open>[0xff]\<close> with the flag set leaves
  \<open>[0x01]\<close> in it.
\<close>

theorem uint8ToBigint_mutates_counterexample:
  "[255 :: u8] \<noteq> [] \<and> snd (uint8ToBigint [255] True) = [1] \<and> [1] \<noteq> [255 :: u8]"
proof -
  have "uint8ToBigint [255] True = (- 1, [1])" by code_simp
  then show ?thesis by simp
qed

text \<open>
  C4, amended.  \<open>uint8ToBigint\<close> leaves its argument as it was when the flag is false or
  the top bit of the first byte is clear.  When the flag is true and that bit is set, it
  overwrites the argument in place with the two's-complement negation: the array keeps
  its length and afterwards holds \<open>256 ^ length - value\<close>.
\<close>

theorem uint8ToBigint_input_effect:
  "(\<not> (flag \<and> sign_bit_set bytes) \<longrightarrow> snd (uint8ToBigint bytes flag) = bytes) \<and>
   (flag \<and> sign_bit_set bytes \<longrightarrow>
      length (snd (uint8ToBigint bytes flag)) = length bytes \<and>
      be_val (snd (uint8ToBigint bytes flag)) = 256 ^ length bytes - be_val bytes)"
  using uint8ToBigint_plain [of flag bytes] uint8ToBigint_negative(2,3) [of bytes]
  by auto

theorem uint8ToBigint_input_effect_witness:
  "\<not> (False \<and> sign_bit_set [248, 164, 50, 235]) \<and>
   snd (uint8ToBigint [248, 164, 50, 235] False) = [248, 164, 50, 235] \<and>
   (True \<and> sign_bit_set [248, 164, 50, 235]) \<and>
   snd (uint8ToBigint [248, 164, 50, 235] True) = [7, 91, 205, 21] \<and>
   be_val [7, 91, 205, 21] = 256 ^ 4 - be_val [248, 164, 50, 235]"
proof -
  have s: "sign_bit_set [248, 164, 50, 235]"
    by (simp add: sign_bit_set_def)
  have b: "be_val [7, 91, 205, 21] = 256 ^ 4 - be_val [248, 164, 50, 235]"
    by (simp add: be_val_def)
  show ?thesis
    using uint8ToBigint_input_effect [of False "[248, 164, 50, 235]"]
      uint8ToBigint_input_effect [of True "[248, 164, 50, 235]"]
    by (simp add: s b decode_example)
qed

section \<open>Euler's totient\<close>

lemma finite_totatives_below: "finite (totatives_below n)"
  by (simp add: totatives_below_def)

lemma totient_count_below:
  assumes "0 < n"
  shows "totient_count n = card (totatives_below n)"
proof (cases "n = 1")
  case True
  have "{k \<in> {1..1::nat}. coprime k 1} = {1}" by auto
  moreover have "totatives_below 1 = {0}"
    by (auto simp: totatives_below_def)
  ultimately show ?thesis
    using True by (simp add: totient_count_def)
next
  case False
  with assms have n: "1 < n" by simp
  have "{k \<in> {1..n}. coprime k n} = totatives_below n"
  proof (rule set_eqI)
    fix k
    have "\<not> coprime n n" using n by simp
    moreover have "\<not> coprime 0 n" using n by simp
    ultimately show "k \<in> {k \<in> {1..n}. coprime k n} \<longleftrightarrow> k \<in> totatives_below n"
      by (cases "k = 0"; cases "k = n") (auto simp: totatives_below_def)
  qed
  then show ?thesis
    by (simp add: totient_count_def)
qed

lemma is_prime_divisors:
  assumes "is_prime p" and "d dvd p"
  shows "d = 1 \<or> d = p"
proof (rule ccontr)
  assume h: "\<not> (d = 1 \<or> d = p)"
  have p: "1 < p" using assms(1) by (simp add: is_prime_def)
  have "d \<le> p" using assms(2) p by (simp add: dvd_imp_le)
  moreover have "d \<noteq> 0"
  proof
    assume "d = 0"
    with assms(2) have "p = 0" by simp
    with p show False by simp
  qed
  ultimately have "d \<in> {2..<p}" using h by auto
  then show False
    using assms by (simp add: is_prime_def)
qed

lemma is_prime_coprime_iff:
  assumes "is_prime p"
  shows "coprime x p \<longleftrightarrow> \<not> p dvd x"
proof
  assume c: "coprime x p"
  show "\<not> p dvd x"
  proof
    assume "p dvd x"
    then have "p dvd 1"
      using c by (meson coprime_common_divisor dvd_refl)
    then show False
      using assms by (simp add: is_prime_def)
  qed
next
  assume n: "\<not> p dvd x"
  have "gcd x p dvd p" by simp
  with assms have "gcd x p = 1 \<or> gcd x p = p"
    by (rule is_prime_divisors)
  moreover have "gcd x p \<noteq> p"
    using n by (metis gcd_dvd1)
  ultimately show "coprime x p"
    by (simp add: coprime_iff_gcd_eq_1)
qed

lemma totatives_prime_power:
  assumes "is_prime p" and "0 < k"
  shows "card (totatives_below (p ^ k)) = p ^ k - p ^ (k - 1)"
proof -
  have p: "0 < p" using assms(1) by (simp add: is_prime_def)
  have pk: "p ^ k = p * p ^ (k - 1)"
    using assms(2) by (cases k) simp_all
  let ?M = "(\<lambda>j. p * j) ` {0..<p ^ (k - 1)}"
  have cop: "coprime x (p ^ k) \<longleftrightarrow> \<not> p dvd x" for x
    using assms by (simp add: is_prime_coprime_iff)
  have M: "?M = {x. x < p ^ k \<and> p dvd x}"
  proof (rule set_eqI)
    fix x
    show "x \<in> ?M \<longleftrightarrow> x \<in> {x. x < p ^ k \<and> p dvd x}"
    proof
      assume "x \<in> ?M"
      then obtain j where "j \<in> {0..<p ^ (k - 1)}" and j1: "x = p * j"
        by (rule imageE)
      then have j: "x = p * j" "j < p ^ (k - 1)" by simp_all
      then have "p * j < p * p ^ (k - 1)" using p by simp
      then show "x \<in> {x. x < p ^ k \<and> p dvd x}"
        using j(1) pk by simp
    next
      assume "x \<in> {x. x < p ^ k \<and> p dvd x}"
      then have x: "x < p * p ^ (k - 1)" "p dvd x" using pk by simp_all
      then obtain j where j: "x = p * j" by (auto elim: dvdE)
      with x(1) p have "j < p ^ (k - 1)" by simp
      with j show "x \<in> ?M" by auto
    qed
  qed
  have "totatives_below (p ^ k) = {0..<p ^ k} - ?M"
    unfolding M totatives_below_def using cop by fastforce
  moreover have "?M \<subseteq> {0..<p ^ k}"
    unfolding M by auto
  moreover have "card ?M = p ^ (k - 1)"
    using p by (simp add: card_image inj_on_def)
  ultimately show ?thesis
    by (simp add: card_Diff_subset)
qed

lemma residues_eq:
  fixes a b u v :: nat
  assumes "coprime a b" and "u < a * b" and "v \<le> u"
    and "u mod a = v mod a" and "u mod b = v mod b"
  shows "u = v"
proof -
  have "a dvd u - v"
    using mod_eq_dvd_iff_nat [OF assms(3), of a] assms(4) by blast
  moreover have "b dvd u - v"
    using mod_eq_dvd_iff_nat [OF assms(3), of b] assms(5) by blast
  ultimately have d: "a * b dvd u - v"
    using assms(1) by (simp only: divides_mult)
  have l: "u - v < a * b"
    using assms(2) by arith
  have "u - v = 0"
  proof (rule ccontr)
    assume "u - v \<noteq> 0"
    then have "0 < u - v" by simp
    with d have "a * b \<le> u - v" by (rule dvd_imp_le)
    with l show False by simp
  qed
  with assms(3) show ?thesis by simp
qed

lemma residues_inj:
  fixes a b :: nat
  assumes "coprime a b"
  shows "inj_on (\<lambda>k. (k mod a, k mod b)) {0..<a * b}"
proof (rule inj_onI)
  fix x y :: nat
  assume x: "x \<in> {0..<a * b}" and y: "y \<in> {0..<a * b}"
    and e: "(x mod a, x mod b) = (y mod a, y mod b)"
  have xl: "x < a * b" and yl: "y < a * b"
    using x y by simp_all
  have ea: "x mod a = y mod a" and eb: "x mod b = y mod b"
    using e by simp_all
  show "x = y"
  proof (cases "y \<le> x")
    case True
    with assms xl show ?thesis using ea eb by (rule residues_eq)
  next
    case False
    then have "x \<le> y" by simp
    with assms yl have "y = x" using ea [symmetric] eb [symmetric] by (rule residues_eq)
    then show ?thesis by simp
  qed
qed

lemma residues_image:
  fixes a b :: nat
  assumes "coprime a b" and "0 < a" and "0 < b"
  shows "(\<lambda>k. (k mod a, k mod b)) ` {0..<a * b} = {0..<a} \<times> {0..<b}"
proof (rule card_subset_eq)
  show "finite ({0..<a} \<times> {0..<b})" by simp
  show "(\<lambda>k. (k mod a, k mod b)) ` {0..<a * b} \<subseteq> {0..<a} \<times> {0..<b}"
    using assms by auto
  have "card ((\<lambda>k. (k mod a, k mod b)) ` {0..<a * b}) = card {0..<a * b}"
    using residues_inj [OF assms(1)] by (rule card_image)
  then show "card ((\<lambda>k. (k mod a, k mod b)) ` {0..<a * b}) = card ({0..<a} \<times> {0..<b})"
    by (simp add: card_cartesian_product)
qed

lemma totatives_mult:
  assumes "coprime a b" and "0 < a" and "0 < b"
  shows "card (totatives_below (a * b)) = card (totatives_below a) * card (totatives_below b)"
proof -
  let ?f = "\<lambda>k. (k mod a, k mod b)"
  have sub: "totatives_below (a * b) \<subseteq> {0..<a * b}"
    by (auto simp: totatives_below_def)
  have inj: "inj_on ?f (totatives_below (a * b))"
    using residues_inj [OF assms(1)] sub by (rule inj_on_subset)
  have img: "?f ` totatives_below (a * b) = totatives_below a \<times> totatives_below b"
  proof (rule set_eqI)
    fix z :: "nat \<times> nat"
    obtain x y where z: "z = (x, y)" by (cases z)
    show "z \<in> ?f ` totatives_below (a * b) \<longleftrightarrow> z \<in> totatives_below a \<times> totatives_below b"
    proof
      assume "z \<in> ?f ` totatives_below (a * b)"
      then obtain k where k: "k < a * b" "coprime k (a * b)" "x = k mod a" "y = k mod b"
        using z by (auto simp: totatives_below_def)
      then show "z \<in> totatives_below a \<times> totatives_below b"
        using assms z by (simp add: totatives_below_def)
    next
      assume "z \<in> totatives_below a \<times> totatives_below b"
      then have xy: "x < a" "coprime x a" "y < b" "coprime y b"
        using z by (simp_all add: totatives_below_def)
      then have "(x, y) \<in> {0..<a} \<times> {0..<b}" by simp
      then have "(x, y) \<in> ?f ` {0..<a * b}"
        using residues_image [OF assms] by simp
      then obtain k where k: "k < a * b" "x = k mod a" "y = k mod b" by auto
      have "coprime k a" "coprime k b"
        using xy k by simp_all
      then have "coprime k (a * b)" by simp
      with k show "z \<in> ?f ` totatives_below (a * b)"
        using z by (auto simp: totatives_below_def)
    qed
  qed
  have "card (totatives_below (a * b)) = card (?f ` totatives_below (a * b))"
    using inj by (simp add: card_image)
  then show ?thesis
    by (simp add: img card_cartesian_product)
qed

lemma totient_count_mult:
  "coprime a b \<Longrightarrow> 0 < a \<Longrightarrow> 0 < b \<Longrightarrow> totient_count (a * b) = totient_count a * totient_count b"
  by (simp add: totient_count_below totatives_mult)

lemma totient_count_prime_power:
  "is_prime p \<Longrightarrow> 0 < k \<Longrightarrow> totient_count (p ^ k) = p ^ k - p ^ (k - 1)"
  by (simp add: totient_count_below totatives_prime_power is_prime_def)

lemma totient_count_prime: "is_prime p \<Longrightarrow> totient_count p = p - 1"
  using totient_count_prime_power [of p 1] by simp

lemma totient_count_1: "totient_count 1 = 1"
proof -
  have "{k \<in> {1..1::nat}. coprime k 1} = {1}" by auto
  then show ?thesis by (simp add: totient_count_def)
qed

section \<open>Trial division\<close>

lemma smod_int_nat: "0 < b \<Longrightarrow> int a smod int b = int (a mod b)"
  by (simp add: smod_nonneg zmod_int)

lemma sdiv_int_nat: "0 < b \<Longrightarrow> int a sdiv int b = int (a div b)"
  by (simp add: sdiv_nonneg zdiv_int)

lemma phi_divide_step:
  "0 < i \<Longrightarrow> i dvd n \<Longrightarrow> phi_divide (int n) (int i) = phi_divide (int (n div i)) (int i)"
  by (subst phi_divide.simps) (simp add: smod_int_nat sdiv_int_nat)

lemma phi_divide_stop:
  "0 < i \<Longrightarrow> \<not> i dvd n \<Longrightarrow> phi_divide (int n) (int i) = Some (int n)"
  by (subst phi_divide.simps) (simp add: smod_int_nat dvd_eq_mod_eq_0)

lemma phi_divide_correct:
  assumes "2 \<le> i" and "0 < n"
  shows "\<exists>k n'. n = i ^ k * n' \<and> \<not> i dvd n' \<and> phi_divide (int n) (int i) = Some (int n')"
  using assms(2)
proof (induction n rule: less_induct)
  case (less n)
  have i: "0 < i" using assms(1) by simp
  show ?case
  proof (cases "i dvd n")
    case True
    then have n: "n = i * (n div i)" by simp
    have "n div i < n"
      using assms(1) less.prems by simp
    moreover have "0 < n div i"
      using True less.prems i by (simp add: div_greater_zero_iff dvd_imp_le)
    ultimately obtain k n' where
      k: "n div i = i ^ k * n'" "\<not> i dvd n'" "phi_divide (int (n div i)) (int i) = Some (int n')"
      using less.IH by blast
    have "n = i ^ Suc k * n'"
      using n k(1) by (simp add: mult.assoc)
    moreover have "phi_divide (int n) (int i) = Some (int n')"
      using phi_divide_step [OF i True] k(3) by simp
    ultimately show ?thesis
      using k(2) by blast
  next
    case False
    have "n = i ^ 0 * n" by simp
    moreover have "phi_divide (int n) (int i) = Some (int n)"
      using i False by (rule phi_divide_stop)
    ultimately show ?thesis
      using False by blast
  qed
qed

lemma least_divisor_prime:
  assumes "2 \<le> i" and "i dvd n" and "\<And>j. 2 \<le> j \<Longrightarrow> j < i \<Longrightarrow> \<not> j dvd n"
  shows "is_prime i"
proof -
  have "\<not> d dvd i" if "d \<in> {2..<i}" for d
  proof
    assume "d dvd i"
    then have "d dvd n" using assms(2) by (rule dvd_trans)
    moreover have "2 \<le> d" "d < i" using that by simp_all
    ultimately show False using assms(3) by blast
  qed
  then show ?thesis
    using assms(1) by (simp add: is_prime_def)
qed

lemma remainder_prime:
  assumes "1 < n" and "n < i * i" and "\<And>j. 2 \<le> j \<Longrightarrow> j < i \<Longrightarrow> \<not> j dvd n"
  shows "is_prime n"
proof -
  have "\<not> d dvd n" if d: "d \<in> {2..<n}" for d
  proof
    assume dv: "d dvd n"
    then obtain e where e: "n = d * e" by (auto elim: dvdE)
    have d2: "2 \<le> d" "d < n" using d by simp_all
    have "e dvd n" using e by simp
    have "e \<noteq> 0"
    proof
      assume "e = 0"
      with e have "n = 0" by simp
      with assms(1) show False by simp
    qed
    have "e \<noteq> 1" using e d2 by auto
    then have e2: "2 \<le> e" using \<open>e \<noteq> 0\<close> by simp
    have "i \<le> d"
    proof (rule ccontr)
      assume "\<not> i \<le> d"
      then have "d < i" by simp
      with d2(1) dv assms(3) show False by blast
    qed
    moreover have "i \<le> e"
    proof (rule ccontr)
      assume "\<not> i \<le> e"
      then have "e < i" by simp
      with e2 \<open>e dvd n\<close> assms(3) show False by blast
    qed
    ultimately have "i * i \<le> d * e" by (rule mult_le_mono)
    with e assms(2) show False by simp
  qed
  then show ?thesis
    using assms(1) by (simp add: is_prime_def)
qed

lemma phi_loop_exit: "\<not> i * i \<le> n \<Longrightarrow> phi_loop n r i = Some (n, r)"
  by (subst phi_loop.simps) simp

lemma phi_loop_skip:
  "i * i \<le> n \<Longrightarrow> n smod i \<noteq> 0 \<Longrightarrow> phi_loop n r i = phi_loop n r (i + 1)"
  by (subst phi_loop.simps) simp

lemma phi_loop_divide:
  "i * i \<le> n \<Longrightarrow> n smod i = 0 \<Longrightarrow> phi_divide n i = Some n' \<Longrightarrow>
   phi_loop n r i = phi_loop n' (r - r sdiv i) (i + 1)"
  by (subst phi_loop.simps) simp

lemma result_update:
  assumes "0 < i"
  shows "int r - int r sdiv int i = int (r - r div i)"
proof -
  have "r div i \<le> r" by simp
  then show ?thesis
    using assms by (simp add: sdiv_int_nat of_nat_diff)
qed

lemma divided_result:
  fixes i m n' c :: nat
  assumes "0 < i"
  shows "i ^ Suc m * n' * c - (i ^ Suc m * n' * c) div i = n' * (c * (i ^ Suc m - i ^ m))"
proof -
  let ?X = "i ^ m * n' * c"
  have e: "i ^ Suc m * n' * c = i * ?X"
    by (simp add: mult.assoc)
  have "(i * ?X) div i = ?X"
    using assms by simp
  then have "i ^ Suc m * n' * c - (i ^ Suc m * n' * c) div i = i * ?X - ?X"
    by (simp only: e)
  also have "\<dots> = (i * i ^ m - i ^ m) * (n' * c)"
    by (simp add: diff_mult_distrib mult.assoc)
  also have "\<dots> = n' * (c * (i * i ^ m - i ^ m))"
    by (simp add: mult.commute mult.left_commute)
  finally show ?thesis by simp
qed

lemma phi_alt: "phi n = Option.bind (phi_loop n n 2) phi_finish"
  by (simp add: phi_def phi_finish_def)

lemma phi_finish_prime:
  assumes "is_prime n"
  shows "phi_finish (int n, int (n * c)) = Some (int (c * totient_count n))"
proof -
  have n: "1 < n" using assms by (simp add: is_prime_def)
  have "(n * c) div n = c" using n by simp
  then have "n * c - (n * c) div n = c * (n - 1)"
    by (simp add: diff_mult_distrib2 mult.commute)
  moreover have "int (n * c) - int (n * c) sdiv int n = int (n * c - (n * c) div n)"
    using n by (intro result_update) simp
  ultimately have "int (n * c) - int (n * c) sdiv int n = int (c * totient_count n)"
    using assms by (simp add: totient_count_prime)
  then show ?thesis
    using n by (simp add: phi_finish_def)
qed

lemma phi_finish_one: "phi_finish (int 1, int (1 * c)) = Some (int (c * totient_count 1))"
  using totient_count_1 by (simp add: phi_finish_def)

lemma phi_loop_correct:
  assumes "2 \<le> i" and "0 < n" and "\<And>j. 2 \<le> j \<Longrightarrow> j < i \<Longrightarrow> \<not> j dvd n"
  shows "Option.bind (phi_loop (int n) (int (n * c)) (int i)) phi_finish
           = Some (int (c * totient_count n))"
  using assms
proof (induction "n + 1 - i" arbitrary: n i c rule: less_induct)
  case less
  have ipos: "0 < i" using less.prems(1) by simp
  have cond: "int i * int i \<le> int n \<longleftrightarrow> i * i \<le> n"
    by (simp flip: of_nat_mult)
  have suc: "int (Suc i) = int i + 1"
    by simp
  show ?case
  proof (cases "i * i \<le> n")
    case False
    then have loop: "phi_loop (int n) (int (n * c)) (int i) = Some (int n, int (n * c))"
      by (intro phi_loop_exit) (simp add: cond)
    have fin: "Option.bind (phi_loop (int n) (int (n * c)) (int i)) phi_finish
                 = phi_finish (int n, int (n * c))"
      by (simp only: loop Option.bind.simps)
    show ?thesis
    proof (cases "n = 1")
      case True
      have "phi_finish (int n, int (n * c)) = Some (int (c * totient_count n))"
        unfolding True by (rule phi_finish_one)
      then show ?thesis
        by (simp only: fin)
    next
      case ne: False
      with less.prems(2) have "1 < n" by simp
      moreover have "n < i * i" using False by simp
      ultimately have "is_prime n"
        using less.prems(3) by (rule remainder_prime)
      then show ?thesis
        unfolding fin by (rule phi_finish_prime)
    qed
  next
    case le: True
    have i_le_n: "i \<le> n"
    proof -
      have "i \<le> i * i" using ipos by simp
      then show ?thesis using le by (rule order_trans)
    qed
    show ?thesis
    proof (cases "i dvd n")
      case False
      then have "int n smod int i \<noteq> 0"
        using ipos by (simp add: smod_int_nat dvd_eq_mod_eq_0)
      moreover have "int i * int i \<le> int n"
        using le by (simp only: cond)
      ultimately have loop: "phi_loop (int n) (int (n * c)) (int i)
                     = phi_loop (int n) (int (n * c)) (int (Suc i))"
        unfolding suc by (intro phi_loop_skip)
      have m: "n + 1 - Suc i < n + 1 - i"
        using i_le_n by simp
      have nd: "\<not> j dvd n" if "2 \<le> j" "j < Suc i" for j
      proof (cases "j = i")
        case True
        with False show ?thesis by simp
      next
        case False
        with that have "j < i" by simp
        with that(1) show ?thesis by (rule less.prems(3))
      qed
      have "Option.bind (phi_loop (int n) (int (n * c)) (int (Suc i))) phi_finish
              = Some (int (c * totient_count n))"
        using m _ less.prems(2) nd by (rule less.hyps) (use less.prems(1) in simp)
      then show ?thesis
        by (simp only: loop)
    next
      case dv: True
      obtain k n' where k: "n = i ^ k * n'" "\<not> i dvd n'"
          "phi_divide (int n) (int i) = Some (int n')"
        using phi_divide_correct [OF less.prems(1,2)] by blast
      have "k \<noteq> 0"
      proof
        assume "k = 0"
        with k(1) have "n' = n" by simp
        with k(2) dv show False by simp
      qed
      then obtain m where km: "k = Suc m" by (cases k) simp_all
      have n'pos: "0 < n'"
        using k(1) less.prems(2) by (cases "n' = 0") simp_all
      have pr: "is_prime i"
        using less.prems(1) dv less.prems(3) by (rule least_divisor_prime)
      let ?c = "c * (i ^ k - i ^ (k - 1))"
      have res: "int (n * c) - int (n * c) sdiv int i = int (n' * ?c)"
      proof -
        have "int (n * c) - int (n * c) sdiv int i = int (n * c - (n * c) div i)"
          using ipos by (rule result_update)
        also have "n * c - (n * c) div i = n' * ?c"
          using divided_result [OF ipos, of m n' c] by (simp add: k(1) km)
        finally show ?thesis .
      qed
      have "int n smod int i = 0"
        using ipos dv by (simp add: smod_int_nat)
      moreover have "int i * int i \<le> int n"
        using le by (simp only: cond)
      ultimately have "phi_loop (int n) (int (n * c)) (int i)
                   = phi_loop (int n') (int (n * c) - int (n * c) sdiv int i) (int i + 1)"
        using k(3) by (intro phi_loop_divide)
      then have loop: "phi_loop (int n) (int (n * c)) (int i)
                   = phi_loop (int n') (int (n' * ?c)) (int (Suc i))"
        by (simp only: res suc)
      have "n' dvd n" using k(1) by simp
      then have "n' \<le> n" using less.prems(2) by (rule dvd_imp_le)
      then have meas: "n' + 1 - Suc i < n + 1 - i"
        using i_le_n by simp
      have nd: "\<not> j dvd n'" if "2 \<le> j" "j < Suc i" for j
      proof (cases "j = i")
        case True
        with k(2) show ?thesis by simp
      next
        case False
        with that have "j < i" by simp
        with that(1) have "\<not> j dvd n" by (rule less.prems(3))
        then show ?thesis
          using \<open>n' dvd n\<close> by (meson dvd_trans)
      qed
      have ih: "Option.bind (phi_loop (int n') (int (n' * ?c)) (int (Suc i))) phi_finish
              = Some (int (?c * totient_count n'))"
        using meas _ n'pos nd by (rule less.hyps) (use less.prems(1) in simp)
      have kpos: "0 < k" using km by simp
      have "coprime n' i"
        using pr k(2) by (simp add: is_prime_coprime_iff)
      then have cop: "coprime (i ^ k) n'"
        by (simp add: coprime_commute)
      have "totient_count n = totient_count (i ^ k) * totient_count n'"
        unfolding k(1) using cop _ n'pos by (rule totient_count_mult) (use ipos in simp)
      also have "totient_count (i ^ k) = i ^ k - i ^ (k - 1)"
        using pr kpos by (rule totient_count_prime_power)
      finally have "c * totient_count n = ?c * totient_count n'"
        by (simp add: mult.assoc)
      then show ?thesis
        by (simp only: loop ih)
    qed
  qed
qed

text \<open>
  C9.  For every integer \<open>n \<ge> 1\<close>, \<open>phi n\<close> returns, and its result is Euler's totient of
  \<open>n\<close>: the count of the integers in \<open>[1, n]\<close> that are coprime to \<open>n\<close>.  The loop bound
  \<open>i * i \<le> n\<close> is tested against the shrinking \<open>n\<close>.
\<close>

theorem phi_totient:
  assumes "1 \<le> n"
  shows "phi n = Some (int (totient_count (nat n)))"
proof -
  have n: "n = int (nat n)" "0 < nat n"
    using assms by simp_all
  have "Option.bind (phi_loop (int (nat n)) (int (nat n * 1)) (int 2)) phi_finish
          = Some (int (1 * totient_count (nat n)))"
    using _ n(2) by (rule phi_loop_correct) simp_all
  then show ?thesis
    using n(1) by (simp add: phi_alt)
qed

theorem phi_totient_witness:
  "(1::int) \<le> 36 \<and> phi 36 = Some 12 \<and> totient_count (nat 36) = 12"
proof -
  have t: "totient_count 36 = 12" by code_simp
  show ?thesis
    using phi_totient [of 36] by (simp add: t)
qed

end
